theory Spec2Isabelle
  imports Main "HOL-Library.Sublist" "HOL-Library.List_Lexorder" "HOL-Library.Char_ord"
begin

section \<open>The PDF to Markdown converter (convert\_pdfs.py)\<close>

text \<open>
  A shallow embedding of \<^verbatim>\<open>convert_pdfs.py\<close>: the three functions
  \<^verbatim>\<open>extract_images\<close>, \<^verbatim>\<open>convert_pdf_to_markdown\<close> and \<^verbatim>\<open>main\<close>,
  the string methods they call, and the part of the world they touch (files,
  directories, the console).

  Modelling decisions, fixed here once:
  \<^item> A Python \<^verbatim>\<open>str\<close> is a \<^typ>\<open>string\<close>; one \<^typ>\<open>char\<close> stands for one code point
    below 256. Whitespace is what \<^verbatim>\<open>str.isspace\<close> accepts in that range; the case
    mapping of \<^verbatim>\<open>str.title\<close> covers the ASCII letters and leaves every other code
    point alone.
  \<^item> A \<^verbatim>\<open>Path\<close> is the list of its components; \<^verbatim>\<open>a / b\<close> appends a component.
  \<^item> What PyMuPDF returns for a document is data of the model: for every page its text
    and its image list (or the exception raised instead), and for every xref the
    dictionary \<^verbatim>\<open>extract_image\<close> returns (or the exception).
  \<^item> Whether the operating system refuses a \<^verbatim>\<open>mkdir\<close> or an \<^verbatim>\<open>open\<close> is not
    decided by the model: it is a parameter of the run (record \<open>env\<close>), the same for
    the whole run. A successful \<^verbatim>\<open>open(..., "w")\<close> followed by \<^verbatim>\<open>write\<close> replaces the
    file's content.
  \<^item> An exception is a value: every function that can raise returns
    \<open>(exn + result) \<times> world\<close>, the world being the one reached when the exception was
    raised (nothing is rolled back).
\<close>

subsection \<open>Python strings\<close>

definition isspace :: "char \<Rightarrow> bool" where
  "isspace c = (of_char c \<in> {9, 10, 11, 12, 13, 28, 29, 30, 31, 32, 133, 160 :: nat})"

definition strip :: "string \<Rightarrow> string" where
  "strip s = rev (dropWhile isspace (rev (dropWhile isspace s)))"

text \<open>\<^verbatim>\<open>s.split(sep)\<close> for a separator of one character: never the empty list.\<close>

fun split_str :: "char \<Rightarrow> string \<Rightarrow> string list" where
  "split_str sep [] = [[]]"
| "split_str sep (c # cs) =
     (if c = sep then [] # split_str sep cs
      else (case split_str sep cs of [] \<Rightarrow> [[c]] | l # ls \<Rightarrow> (c # l) # ls))"

fun join :: "string \<Rightarrow> string list \<Rightarrow> string" where
  "join sep [] = []"
| "join sep [x] = x"
| "join sep (x # y # ys) = x @ sep @ join sep (y # ys)"

definition replace :: "char \<Rightarrow> char \<Rightarrow> string \<Rightarrow> string" where
  "replace old new s = map (\<lambda>c. if c = old then new else c) s"

definition islower :: "char \<Rightarrow> bool" where
  "islower c = (97 \<le> (of_char c :: nat) \<and> (of_char c :: nat) \<le> 122)"

definition isupper :: "char \<Rightarrow> bool" where
  "isupper c = (65 \<le> (of_char c :: nat) \<and> (of_char c :: nat) \<le> 90)"

definition iscased :: "char \<Rightarrow> bool" where
  "iscased c = (islower c \<or> isupper c)"

definition upper :: "char \<Rightarrow> char" where
  "upper c = (if islower c then char_of (of_char c - (32 :: nat)) else c)"

definition lower :: "char \<Rightarrow> char" where
  "lower c = (if isupper c then char_of (of_char c + (32 :: nat)) else c)"

text \<open>
  \<^verbatim>\<open>str.title\<close>: a cased character is upper-cased when the character before it is not
  cased, and lower-cased otherwise; the other characters are kept.
\<close>

fun title_from :: "bool \<Rightarrow> string \<Rightarrow> string" where
  "title_from previous_is_cased [] = []"
| "title_from previous_is_cased (c # cs) =
     (if previous_is_cased then lower c else upper c) # title_from (iscased c) cs"

definition title :: "string \<Rightarrow> string" where
  "title s = title_from False s"

text \<open>\<^verbatim>\<open>str(n)\<close> for a natural number, as an f-string renders it.\<close>

definition digit :: "nat \<Rightarrow> char" where
  "digit d = ''0123456789'' ! d"

fun str_nat :: "nat \<Rightarrow> string" where
  "str_nat n = (if n < 10 then [digit n] else str_nat (n div 10) @ [digit (n mod 10)])"

declare str_nat.simps [simp del]

subsection \<open>Exceptions, paths, the world\<close>

datatype exn = Exception string

fun str_exn :: "exn \<Rightarrow> string" where
  "str_exn (Exception msg) = msg"

text \<open>\<^verbatim>\<open>str(KeyError(k))\<close> is the \<^verbatim>\<open>repr\<close> of the key.\<close>

definition KeyError :: "string \<Rightarrow> exn" where
  "KeyError k = Exception ([CHR 0x27] @ k @ [CHR 0x27])"

type_synonym path = "string list"

type_synonym bytes = "char list"

datatype content = Text string | Binary bytes

record world =
  files :: "path \<rightharpoonup> content"
  dirs :: "path set"
  stdout :: "string list"

record env =
  mkdir_err :: "path \<Rightarrow> exn option"
  open_err :: "path \<Rightarrow> exn option"

definition py_print :: "string \<Rightarrow> world \<Rightarrow> world" where
  "py_print s w = w\<lparr>stdout := stdout w @ [s]\<rparr>"

text \<open>\<^verbatim>\<open>p.mkdir(parents=True, exist_ok=True)\<close>\<close>

definition mkdir :: "env \<Rightarrow> path \<Rightarrow> world \<Rightarrow> (exn + unit) \<times> world" where
  "mkdir ev p w =
     (case mkdir_err ev p of
        Some e \<Rightarrow> (Inl e, w)
      | None \<Rightarrow> (Inr (), w\<lparr>dirs := dirs w \<union> set (prefixes p)\<rparr>))"

text \<open>\<^verbatim>\<open>with open(p, mode) as f: f.write(data)\<close>\<close>

definition write_file :: "env \<Rightarrow> path \<Rightarrow> content \<Rightarrow> world \<Rightarrow> (exn + unit) \<times> world" where
  "write_file ev p data w =
     (case open_err ev p of
        Some e \<Rightarrow> (Inl e, w)
      | None \<Rightarrow> (Inr (), w\<lparr>files := (files w)(p \<mapsto> data)\<rparr>))"

subsection \<open>What PyMuPDF gives\<close>

text \<open>
  The dictionary \<^verbatim>\<open>extract_image\<close> returns, at the two keys the program reads;
  \<open>None\<close> is a key that is absent.
\<close>

record base_image =
  bi_image :: "bytes option"
  bi_ext :: "string option"

text \<open>An entry of \<^verbatim>\<open>page.get_images(full=True)\<close>: a tuple whose item 0 is the xref.\<close>

record img_info =
  xref :: int

record page =
  get_text :: "exn + string"
  get_images :: "exn + img_info list"

record document =
  doc_pages :: "(exn + page) list"
  extract_image :: "int \<Rightarrow> exn + base_image"

record pdf_path =
  path_name :: string
  path_stem :: string
  fitz_open :: "exn + document"

subsection \<open>extract\_images\<close>

definition image_filename :: "nat \<Rightarrow> nat \<Rightarrow> string \<Rightarrow> string" where
  "image_filename page_num img_idx image_ext =
     ''page'' @ str_nat (page_num + 1) @ ''_img'' @ str_nat img_idx @ ''.'' @ image_ext"

definition image_ref :: "string \<Rightarrow> string \<Rightarrow> string" where
  "image_ref pdf_name image_filename' =
     ''![Image]('' @ (''images/'' @ pdf_name @ ''/'' @ image_filename') @ '')''"

text \<open>The body of the \<^verbatim>\<open>try\<close> for one image: the reference, or the exception caught.\<close>

definition try_extract ::
  "env \<Rightarrow> document \<Rightarrow> path \<Rightarrow> string \<Rightarrow> nat \<Rightarrow> nat \<Rightarrow> img_info \<Rightarrow> world \<Rightarrow> (exn + string) \<times> world"
where
  "try_extract ev doc pdf_images_dir pdf_name page_num img_idx info w =
     (case extract_image doc (xref info) of
        Inl e \<Rightarrow> (Inl e, w)
      | Inr base \<Rightarrow>
          (case bi_image base of
             None \<Rightarrow> (Inl (KeyError ''image''), w)
           | Some image_bytes \<Rightarrow>
               (case bi_ext base of
                  None \<Rightarrow> (Inl (KeyError ''ext''), w)
                | Some image_ext \<Rightarrow>
                    (let fname = image_filename page_num img_idx image_ext;
                         image_path = pdf_images_dir @ [fname]
                     in case write_file ev image_path (Binary image_bytes) w of
                          (Inl e, w') \<Rightarrow> (Inl e, w')
                        | (Inr _, w') \<Rightarrow> (Inr (image_ref pdf_name fname), w')))))"

definition warning :: "nat \<Rightarrow> nat \<Rightarrow> exn \<Rightarrow> string" where
  "warning img_idx page_num e =
     ''    Warning: Could not extract image '' @ str_nat img_idx @ '' from page ''
       @ str_nat (page_num + 1) @ '': '' @ str_exn e"

text \<open>\<^verbatim>\<open>for img_idx, img_info in enumerate(image_list, 1)\<close>\<close>

fun extract_loop ::
  "env \<Rightarrow> document \<Rightarrow> path \<Rightarrow> string \<Rightarrow> nat \<Rightarrow> nat \<Rightarrow> img_info list \<Rightarrow> string list \<Rightarrow> world
     \<Rightarrow> string list \<times> world"
where
  "extract_loop ev doc pdf_images_dir pdf_name page_num img_idx [] image_refs w = (image_refs, w)"
| "extract_loop ev doc pdf_images_dir pdf_name page_num img_idx (info # rest) image_refs w =
     (case try_extract ev doc pdf_images_dir pdf_name page_num img_idx info w of
        (Inr r, w') \<Rightarrow>
          extract_loop ev doc pdf_images_dir pdf_name page_num (Suc img_idx) rest (image_refs @ [r]) w'
      | (Inl e, w') \<Rightarrow>
          extract_loop ev doc pdf_images_dir pdf_name page_num (Suc img_idx) rest image_refs
            (py_print (warning img_idx page_num e) w'))"

definition extract_images ::
  "env \<Rightarrow> document \<Rightarrow> page \<Rightarrow> string \<Rightarrow> nat \<Rightarrow> path \<Rightarrow> world \<Rightarrow> (exn + string list) \<times> world"
where
  "extract_images ev doc pg pdf_name page_num images_dir w =
     (case get_images pg of
        Inl e \<Rightarrow> (Inl e, w)
      | Inr image_list \<Rightarrow>
          if image_list = [] then (Inr [], w)
          else
            (let pdf_images_dir = images_dir @ [pdf_name]
             in case mkdir ev pdf_images_dir w of
                  (Inl e, w') \<Rightarrow> (Inl e, w')
                | (Inr _, w') \<Rightarrow>
                    (case extract_loop ev doc pdf_images_dir pdf_name page_num 1 image_list [] w' of
                       (image_refs, w'') \<Rightarrow> (Inr image_refs, w''))))"

subsection \<open>convert\_pdf\_to\_markdown\<close>

text \<open>\<^verbatim>\<open>for line in lines: line = line.strip(); if line: processed_lines.append(line)\<close>\<close>

fun process_lines :: "string list \<Rightarrow> string list \<Rightarrow> string list" where
  "process_lines [] processed_lines = processed_lines"
| "process_lines (line # lines) processed_lines =
     (let line' = strip line
      in if line' \<noteq> [] then process_lines lines (processed_lines @ [line'])
         else process_lines lines processed_lines)"

definition text_fragments :: "nat \<Rightarrow> string \<Rightarrow> string list" where
  "text_fragments page_num text' =
     (if strip text' \<noteq> [] then
        [''\<newline>## Page '' @ str_nat (page_num + 1) @ ''\<newline>'',
         join ''\<newline>'' (process_lines (split_str CHR ''\<newline>'' text') []),
         ''\<newline>'']
      else [])"

definition image_fragments :: "nat \<Rightarrow> string list \<Rightarrow> string list" where
  "image_fragments page_num image_refs =
     (if image_refs \<noteq> [] then
        [''\<newline>### Images from Page '' @ str_nat (page_num + 1) @ ''\<newline>'',
         join ''\<newline>\<newline>'' image_refs,
         ''\<newline>'']
      else [])"

text \<open>\<^verbatim>\<open>for page_num in range(len(doc))\<close>, over the pages still to come.\<close>

fun page_loop ::
  "env \<Rightarrow> document \<Rightarrow> string \<Rightarrow> path \<Rightarrow> nat \<Rightarrow> (exn + page) list \<Rightarrow> string list \<Rightarrow> world
     \<Rightarrow> (exn + string list) \<times> world"
where
  "page_loop ev doc pdf_name images_dir page_num [] markdown_content w = (Inr markdown_content, w)"
| "page_loop ev doc pdf_name images_dir page_num (p # ps) markdown_content w =
     (case p of
        Inl e \<Rightarrow> (Inl e, w)
      | Inr pg \<Rightarrow>
          (case get_text pg of
             Inl e \<Rightarrow> (Inl e, w)
           | Inr text' \<Rightarrow>
               (case extract_images ev doc pg pdf_name page_num images_dir w of
                  (Inl e, w') \<Rightarrow> (Inl e, w')
                | (Inr image_refs, w') \<Rightarrow>
                    page_loop ev doc pdf_name images_dir (Suc page_num) ps
                      (markdown_content @ text_fragments page_num text'
                         @ image_fragments page_num image_refs) w')))"

definition header_fragments :: "pdf_path \<Rightarrow> string list" where
  "header_fragments pdf =
     [''# '' @ title (replace CHR ''-'' CHR '' '' (path_stem pdf)) @ ''\<newline>'',
      ''*Converted from: '' @ path_name pdf @ ''*\<newline>'',
      ''---\<newline>'']"

definition convert_pdf_to_markdown ::
  "env \<Rightarrow> pdf_path \<Rightarrow> path \<Rightarrow> path \<Rightarrow> world \<Rightarrow> (exn + unit) \<times> world"
where
  "convert_pdf_to_markdown ev pdf output_dir images_dir w =
     (let pdf_name = path_stem pdf;
          w1 = py_print (''Converting: '' @ path_name pdf) w
      in case fitz_open pdf of
           Inl e \<Rightarrow> (Inl e, w1)
         | Inr doc \<Rightarrow>
             (case page_loop ev doc pdf_name images_dir 0 (doc_pages doc) (header_fragments pdf) w1 of
                (Inl e, w2) \<Rightarrow> (Inl e, w2)
              | (Inr markdown_content, w2) \<Rightarrow>
                  (let output_path = output_dir @ [pdf_name @ ''.md'']
                   in case write_file ev output_path (Text (join ''\<newline>'' markdown_content)) w2 of
                        (Inl e, w3) \<Rightarrow> (Inl e, w3)
                      | (Inr _, w3) \<Rightarrow>
                          (Inr (), py_print (''  -> Created: '' @ last output_path) w3))))"

subsection \<open>main\<close>

text \<open>The loop of \<^verbatim>\<open>main\<close>: \<^verbatim>\<open>try: convert_pdf_to_markdown(...) except Exception as e: print(...)\<close>\<close>

fun convert_all :: "env \<Rightarrow> path \<Rightarrow> path \<Rightarrow> pdf_path list \<Rightarrow> world \<Rightarrow> world" where
  "convert_all ev output_dir images_dir [] w = w"
| "convert_all ev output_dir images_dir (pdf # rest) w =
     (case convert_pdf_to_markdown ev pdf output_dir images_dir w of
        (Inr _, w') \<Rightarrow> convert_all ev output_dir images_dir rest w'
      | (Inl e, w') \<Rightarrow>
          convert_all ev output_dir images_dir rest
            (py_print (''  Error converting '' @ path_name pdf @ '': '' @ str_exn e) w'))"

definition str_path :: "path \<Rightarrow> string" where
  "str_path p = join ''/'' p"

text \<open>
  \<open>glob_pdf\<close> is what \<^verbatim>\<open>pdf_dir.glob("*.pdf")\<close> yields, in any order; \<open>script_dir\<close>
  is \<^verbatim>\<open>Path(__file__).parent\<close>. A result \<open>Inr ()\<close> is the normal return of \<^verbatim>\<open>main\<close>
  (exit status 0); \<open>Inl e\<close> is an exception that leaves \<^verbatim>\<open>main\<close>.
\<close>

definition main :: "env \<Rightarrow> path \<Rightarrow> pdf_path list \<Rightarrow> world \<Rightarrow> (exn + unit) \<times> world" where
  "main ev script_dir glob_pdf w =
     (let pdf_dir = script_dir @ [''docs'', ''nfse-nacional''];
          output_dir = script_dir @ [''docs'', ''markdown''];
          images_dir = output_dir @ [''images'']
      in case mkdir ev output_dir w of
           (Inl e, w1) \<Rightarrow> (Inl e, w1)
         | (Inr _, w1) \<Rightarrow>
             (case mkdir ev images_dir w1 of
                (Inl e, w2) \<Rightarrow> (Inl e, w2)
              | (Inr _, w2) \<Rightarrow>
                  (let pdf_files = sort_key path_name glob_pdf
                   in if pdf_files = [] then
                        (Inr (), py_print (''No PDF files found in '' @ str_path pdf_dir) w2)
                      else
                        (let w3 = py_print (''Found '' @ str_nat (length pdf_files)
                                     @ '' PDF files to convert\<newline>'') w2;
                             w4 = convert_all ev output_dir images_dir pdf_files w3;
                             w5 = py_print (''\<newline>Conversion complete!'') w4;
                             w6 = py_print (''Markdown files saved to: '' @ str_path output_dir) w5;
                             w7 = py_print (''Images saved to: '' @ str_path images_dir) w6
                         in (Inr (), w7)))))"

subsection \<open>Notions used to state the properties\<close>

text \<open>Decimal digits, and the number a digit string denotes.\<close>

definition isdigit :: "char \<Rightarrow> bool" where
  "isdigit c = (c \<in> set ''0123456789'')"

definition nat_of_str :: "string \<Rightarrow> nat" where
  "nat_of_str s = foldl (\<lambda>acc c. 10 * acc + (of_char c - 48)) 0 s"

text \<open>
  The specification's wording of the title: the stem cut at its hyphens, every word
  capitalised (first character upper case, the others lower case), the words put
  together again with single spaces.
\<close>

definition capitalize :: "string \<Rightarrow> string" where
  "capitalize s = (case s of [] \<Rightarrow> [] | c # cs \<Rightarrow> upper c # map lower cs)"

definition spec_title :: "string \<Rightarrow> string" where
  "spec_title stem = join '' '' (map capitalize (split_str CHR ''-'' stem))"

text \<open>
  What the \<^verbatim>\<open>try\<close> body does for one image, read off as a value: the file name and
  the payload it writes, or the exception that is caught.
\<close>

definition attempt :: "env \<Rightarrow> document \<Rightarrow> path \<Rightarrow> nat \<Rightarrow> nat \<Rightarrow> img_info \<Rightarrow> exn + string \<times> bytes" where
  "attempt ev doc pdf_images_dir page_num img_idx info =
     (case extract_image doc (xref info) of
        Inl e \<Rightarrow> Inl e
      | Inr base \<Rightarrow>
          (case bi_image base of
             None \<Rightarrow> Inl (KeyError ''image'')
           | Some image_bytes \<Rightarrow>
               (case bi_ext base of
                  None \<Rightarrow> Inl (KeyError ''ext'')
                | Some image_ext \<Rightarrow>
                    (case open_err ev (pdf_images_dir @ [image_filename page_num img_idx image_ext]) of
                       Some e \<Rightarrow> Inl e
                     | None \<Rightarrow> Inr (image_filename page_num img_idx image_ext, image_bytes)))))"

text \<open>The references and the warnings of the images numbered from \<open>k\<close> on, in order.\<close>

definition refs_of :: "env \<Rightarrow> document \<Rightarrow> path \<Rightarrow> string \<Rightarrow> nat \<Rightarrow> nat \<Rightarrow> img_info list \<Rightarrow> string list" where
  "refs_of ev doc dir pdf_name page_num k imgs =
     concat (map (\<lambda>(i, info). case attempt ev doc dir page_num i info of
                                 Inl e \<Rightarrow> [] | Inr (fname, b) \<Rightarrow> [image_ref pdf_name fname])
                 (enumerate k imgs))"

definition warnings_of :: "env \<Rightarrow> document \<Rightarrow> path \<Rightarrow> nat \<Rightarrow> nat \<Rightarrow> img_info list \<Rightarrow> string list" where
  "warnings_of ev doc dir page_num k imgs =
     concat (map (\<lambda>(i, info). case attempt ev doc dir page_num i info of
                                 Inl e \<Rightarrow> [warning i page_num e] | Inr _ \<Rightarrow> [])
                 (enumerate k imgs))"

text \<open>
  A change of the world that does not look at the world: files written, directories
  made, lines printed. A function is \<open>uniform\<close> when its result and the change it makes
  are the same from every world.
\<close>

definition effect :: "(path \<rightharpoonup> content) \<Rightarrow> path set \<Rightarrow> string list \<Rightarrow> world \<Rightarrow> world" where
  "effect m D out w = w\<lparr>files := files w ++ m, dirs := dirs w \<union> D, stdout := stdout w @ out\<rparr>"

definition uniform :: "(world \<Rightarrow> 'r \<times> world) \<Rightarrow> bool" where
  "uniform f = (\<exists>r m D out. \<forall>w. f w = (r, effect m D out w))"

text \<open>
  The specification's wording of the text block of a page: every line trimmed, the
  blank ones dropped, the others put together again with single line breaks.
\<close>

definition spec_clean_text :: "string \<Rightarrow> string" where
  "spec_clean_text t =
     join ''\<newline>'' (filter (\<lambda>l. l \<noteq> []) (map strip (split_str CHR ''\<newline>'' t)))"

text \<open>The lines of a Markdown text that begin with \<^verbatim>\<open>## Page\<close>.\<close>

definition heading_lines :: "string \<Rightarrow> string list" where
  "heading_lines content = filter (prefix ''## Page'') (split_str CHR ''\<newline>'' content)"

text \<open>The page is processed without an exception (whatever happens to its single images).\<close>

definition page_passes :: "env \<Rightarrow> path \<Rightarrow> string \<Rightarrow> exn + page \<Rightarrow> bool" where
  "page_passes ev images_dir pdf_name p =
     (case p of
        Inl e \<Rightarrow> False
      | Inr pg \<Rightarrow>
          (case get_text pg of
             Inl e \<Rightarrow> False
           | Inr t \<Rightarrow>
               (case get_images pg of
                  Inl e \<Rightarrow> False
                | Inr imgs \<Rightarrow> imgs = [] \<or> mkdir_err ev (images_dir @ [pdf_name]) = None)))"

subsection \<open>A sample run\<close>

text \<open>
  A document of two pages. Page 1 has text and lists two images, of which the first
  cannot be extracted; page 2 has only white space and lists one image. A second file
  cannot be opened at all.
\<close>

definition ex_env :: env where
  "ex_env = \<lparr>mkdir_err = (\<lambda>p. None), open_err = (\<lambda>p. None)\<rparr>"

definition ex_page1 :: page where
  "ex_page1 = \<lparr>get_text = Inr ''  Hello \<newline>\<newline>  World  \<newline>'',
                get_images = Inr [\<lparr>xref = 5\<rparr>, \<lparr>xref = 6\<rparr>]\<rparr>"

definition ex_page2 :: page where
  "ex_page2 = \<lparr>get_text = Inr ''   \<newline> '', get_images = Inr [\<lparr>xref = 6\<rparr>]\<rparr>"

definition ex_doc :: document where
  "ex_doc = \<lparr>doc_pages = [Inr ex_page1, Inr ex_page2],
     extract_image = (\<lambda>x. if x = 6 then Inr \<lparr>bi_image = Some ''PNGDATA'', bi_ext = Some ''png''\<rparr>
                          else Inl (Exception ''bad image''))\<rparr>"

definition ex_pdf :: pdf_path where
  "ex_pdf = \<lparr>path_name = ''nfse-nacional-manual.pdf'', path_stem = ''nfse-nacional-manual'',
              fitz_open = Inr ex_doc\<rparr>"

definition bad_pdf :: pdf_path where
  "bad_pdf = \<lparr>path_name = ''broken.pdf'', path_stem = ''broken'',
              fitz_open = Inl (Exception ''cannot open broken document'')\<rparr>"

definition w0 :: world where
  "w0 = \<lparr>files = Map.empty, dirs = {}, stdout = []\<rparr>"

text \<open>A page that lists one image, which cannot be extracted.\<close>

definition ex_page3 :: page where
  "ex_page3 = \<lparr>get_text = Inr [], get_images = Inr [\<lparr>xref = 5\<rparr>]\<rparr>"

text \<open>A document whose first page has an image that extracts and whose second page cannot be loaded.\<close>

definition ex_doc_damaged :: document where
  "ex_doc_damaged = \<lparr>doc_pages = [Inr ex_page2, Inl (Exception ''damaged page'')],
     extract_image = (\<lambda>x. Inr \<lparr>bi_image = Some ''PNGDATA'', bi_ext = Some ''png''\<rparr>)\<rparr>"

definition ex_pdf_damaged :: pdf_path where
  "ex_pdf_damaged = \<lparr>path_name = ''damaged.pdf'', path_stem = ''damaged'',
                       fitz_open = Inr ex_doc_damaged\<rparr>"

text \<open>A document of two pages with text, the first with an image.\<close>

definition ex_doc_two :: document where
  "ex_doc_two = \<lparr>doc_pages =
       [Inr \<lparr>get_text = Inr ''Hello'', get_images = Inr [\<lparr>xref = 6\<rparr>]\<rparr>,
        Inr \<lparr>get_text = Inr '' World '', get_images = Inr []\<rparr>],
     extract_image = (\<lambda>x. if x = 6 then Inr \<lparr>bi_image = Some ''PNGDATA'', bi_ext = Some ''png''\<rparr>
                          else Inl (Exception ''bad image''))\<rparr>"

definition ex_pdf_two :: pdf_path where
  "ex_pdf_two = \<lparr>path_name = ''two.pdf'', path_stem = ''two'', fitz_open = Inr ex_doc_two\<rparr>"

text \<open>A document of one page, whose text is the line \<^verbatim>\<open>## Page 7\<close>.\<close>

definition ex_doc_heading :: document where
  "ex_doc_heading = \<lparr>doc_pages = [Inr \<lparr>get_text = Inr ''## Page 7'', get_images = Inr []\<rparr>],
     extract_image = (\<lambda>x. Inl (Exception ''bad image''))\<rparr>"

definition ex_pdf_heading :: pdf_path where
  "ex_pdf_heading = \<lparr>path_name = ''notes.pdf'', path_stem = ''notes'', fitz_open = Inr ex_doc_heading\<rparr>"

section \<open>Properties\<close>

subsection \<open>Strings\<close>

lemma split_str_not_Nil: "split_str sep s \<noteq> []"
  by (induction s) (auto split: list.splits)

lemma join_Cons: "join sep (x # xs) = x @ (if xs = [] then [] else sep @ join sep xs)"
  by (cases xs) simp_all

lemma lt10_cases:
  "d < 10 \<Longrightarrow> d = 0 \<or> d = 1 \<or> d = 2 \<or> d = 3 \<or> d = 4 \<or> d = 5 \<or> d = 6 \<or> d = 7 \<or> d = 8 \<or> d = (9::nat)"
  by arith

lemma isdigit_digit: "d < 10 \<Longrightarrow> isdigit (digit d)"
  using lt10_cases[of d] by (auto simp: isdigit_def digit_def)

lemma of_char_digit: "d < 10 \<Longrightarrow> of_char (digit d) = 48 + d"
  using lt10_cases[of d] by (auto simp: digit_def)

lemma str_nat_digits: "\<forall>c \<in> set (str_nat n). isdigit c"
proof (induction n rule: str_nat.induct)
  case (1 n)
  show ?case
  proof (cases "n < 10")
    case True
    then show ?thesis by (simp add: str_nat.simps[of n] isdigit_digit)
  next
    case False
    then have "\<forall>c \<in> set (str_nat (n div 10)). isdigit c" using 1 by simp
    moreover have "isdigit (digit (n mod 10))" by (simp add: isdigit_digit)
    ultimately show ?thesis using False by (simp add: str_nat.simps[of n])
  qed
qed

lemma nat_of_str_nat: "nat_of_str (str_nat n) = n"
proof (induction n rule: str_nat.induct)
  case (1 n)
  show ?case
  proof (cases "n < 10")
    case True
    then show ?thesis by (simp add: str_nat.simps[of n] nat_of_str_def of_char_digit)
  next
    case False
    then have "nat_of_str (str_nat (n div 10)) = n div 10" using 1 by simp
    then show ?thesis using False
      by (simp add: str_nat.simps[of n] nat_of_str_def of_char_digit)
  qed
qed

lemma str_nat_inj: "str_nat a = str_nat b \<Longrightarrow> a = b"
  by (metis nat_of_str_nat)

text \<open>A run of characters of one kind ends at the first character of another kind.\<close>

lemma sep_unique:
  assumes "\<forall>z \<in> set u. P z" "\<forall>z \<in> set v. P z" "\<not> P x" "\<not> P y" "u @ x # r = v @ y # s"
  shows "u = v \<and> x = y \<and> r = s"
proof -
  have "takeWhile P (u @ x # r) = u" using assms(1,3) by (simp add: takeWhile_tail)
  moreover have "takeWhile P (v @ y # s) = v" using assms(2,4) by (simp add: takeWhile_tail)
  ultimately have "u = v" using assms(5) by simp
  then show ?thesis using assms(5) by simp
qed

lemma image_filename_inj:
  assumes "image_filename p i e = image_filename p' i' e'"
  shows "p = p' \<and> i = i' \<and> e = e'"
proof -
  have nd: "\<not> isdigit CHR ''_''" "\<not> isdigit CHR ''.''" by (simp_all add: isdigit_def)
  from assms have 1: "str_nat (p + 1) @ CHR ''_'' # (''img'' @ str_nat i @ ''.'' @ e)
      = str_nat (p' + 1) @ CHR ''_'' # (''img'' @ str_nat i' @ ''.'' @ e')"
    by (simp add: image_filename_def)
  have 2: "str_nat (p + 1) = str_nat (p' + 1)
      \<and> ''img'' @ str_nat i @ ''.'' @ e = ''img'' @ str_nat i' @ ''.'' @ e'"
    using sep_unique[OF str_nat_digits str_nat_digits nd(1) nd(1) 1] by simp
  then have 3: "str_nat i @ CHR ''.'' # e = str_nat i' @ CHR ''.'' # e'" by simp
  have 4: "str_nat i = str_nat i' \<and> e = e'"
    using sep_unique[OF str_nat_digits str_nat_digits nd(2) nd(2) 3] by simp
  show ?thesis using 2 4 str_nat_inj[of "p + 1" "p' + 1"] str_nat_inj[of i i'] by simp
qed

lemma py_print_simps [simp]:
  "files (py_print s w) = files w" "dirs (py_print s w) = dirs w"
  "stdout (py_print s w) = stdout w @ [s]"
  by (simp_all add: py_print_def)

subsection \<open>The image loop\<close>

lemma try_extract_attempt:
  "try_extract ev doc dir pdf_name page_num i info w =
     (case attempt ev doc dir page_num i info of
        Inl e \<Rightarrow> (Inl e, w)
      | Inr (fname, b) \<Rightarrow>
          (Inr (image_ref pdf_name fname), w\<lparr>files := (files w)(dir @ [fname] \<mapsto> Binary b)\<rparr>))"
  by (simp add: try_extract_def attempt_def write_file_def Let_def
      split: sum.splits option.splits)

lemma fst_try_extract:
  "fst (try_extract ev doc dir pdf_name page_num i info w) =
     (case attempt ev doc dir page_num i info of
        Inl e \<Rightarrow> Inl e | Inr (fname, b) \<Rightarrow> Inr (image_ref pdf_name fname))"
  by (simp add: try_extract_attempt split: sum.splits prod.splits)

lemma attempt_Inr:
  assumes "attempt ev doc dir page_num i info = Inr (fname, b)"
  shows "\<exists>x base. fname = image_filename page_num i x \<and> extract_image doc (xref info) = Inr base
           \<and> bi_image base = Some b \<and> bi_ext base = Some x
           \<and> open_err ev (dir @ [fname]) = None"
  using assms by (auto simp: attempt_def split: sum.splits option.splits)

lemma extract_loop_refs:
  "fst (extract_loop ev doc dir pdf_name page_num k imgs acc w) =
     acc @ refs_of ev doc dir pdf_name page_num k imgs"
  by (induction imgs arbitrary: k acc w)
     (auto simp: refs_of_def try_extract_attempt split: sum.splits prod.splits)

lemma extract_loop_stdout:
  "stdout (snd (extract_loop ev doc dir pdf_name page_num k imgs acc w)) =
     stdout w @ warnings_of ev doc dir page_num k imgs"
  by (induction imgs arbitrary: k acc w)
     (auto simp: warnings_of_def try_extract_attempt split: sum.splits prod.splits)

lemma extract_loop_dirs:
  "dirs (snd (extract_loop ev doc dir pdf_name page_num k imgs acc w)) = dirs w"
  by (induction imgs arbitrary: k acc w)
     (auto simp: try_extract_attempt split: sum.splits prod.splits)

lemma extract_loop_files_other:
  assumes "\<And>i x. k \<le> i \<Longrightarrow> q \<noteq> dir @ [image_filename page_num i x]"
  shows "files (snd (extract_loop ev doc dir pdf_name page_num k imgs acc w)) q = files w q"
  using assms
proof (induction imgs arbitrary: k acc w)
  case Nil
  then show ?case by simp
next
  case (Cons info rest)
  have ih: "\<And>acc w. files (snd (extract_loop ev doc dir pdf_name page_num (Suc k) rest acc w)) q = files w q"
    using Cons.IH[of "Suc k"] Cons.prems by simp
  show ?case
  proof (cases "attempt ev doc dir page_num k info")
    case (Inl e)
    then show ?thesis by (simp add: try_extract_attempt ih)
  next
    case (Inr fb)
    obtain fname b where fb: "fb = (fname, b)" by (cases fb)
    obtain x where "fname = image_filename page_num k x"
      using Inr fb attempt_Inr by blast
    then have "q \<noteq> dir @ [fname]" using Cons.prems[of k] by simp
    then show ?thesis using Inr fb by (simp add: try_extract_attempt ih)
  qed
qed

subsection \<open>Every function changes the world uniformly\<close>

lemma effect_simps [simp]:
  "files (effect m D out w) = files w ++ m" "dirs (effect m D out w) = dirs w \<union> D"
  "stdout (effect m D out w) = stdout w @ out"
  by (simp_all add: effect_def)

lemma effect_effect: "effect m2 D2 o2 (effect m1 D1 o1 w) = effect (m1 ++ m2) (D1 \<union> D2) (o1 @ o2) w"
  by (simp add: effect_def Un_assoc)

lemma effect_none: "effect Map.empty {} [] w = w"
  by (simp add: effect_def)

lemma print_effect: "py_print s w = effect Map.empty {} [s] w"
  by (simp add: effect_def py_print_def)

lemma uniformI: "(\<And>w. f w = (r, effect m D out w)) \<Longrightarrow> uniform f"
  unfolding uniform_def by blast

lemma uniform_return: "uniform (\<lambda>w. (r, w))"
  by (rule uniformI[of _ r Map.empty "{}" "[]"]) (simp add: effect_none)

lemma uniform_bind:
  assumes "uniform f" "\<And>r. uniform (g r)"
  shows "uniform (\<lambda>w. case f w of (r, w') \<Rightarrow> g r w')"
proof -
  obtain r m D out where f: "\<And>w. f w = (r, effect m D out w)"
    using assms(1) unfolding uniform_def by blast
  obtain r' m' D' out' where g: "\<And>w. g r w = (r', effect m' D' out' w)"
    using assms(2)[of r] unfolding uniform_def by blast
  show ?thesis
    by (rule uniformI[of _ r' "m ++ m'" "D \<union> D'" "out @ out'"]) (simp add: f g effect_effect)
qed

lemma uniform_print_then: 
  assumes "uniform f" shows "uniform (\<lambda>w. f (py_print s w))"
proof -
  obtain r m D out where f: "\<And>w. f w = (r, effect m D out w)"
    using assms(1) unfolding uniform_def by blast
  show ?thesis
    by (rule uniformI[of _ r "Map.empty ++ m" "{} \<union> D" "[s] @ out"])
       (simp only: f print_effect effect_effect)
qed

lemma uniform_mkdir: "uniform (mkdir ev p)"
proof (cases "mkdir_err ev p")
  case None
  show ?thesis
    by (rule uniformI[of _ "Inr ()" Map.empty "set (prefixes p)" "[]"])
       (simp add: mkdir_def None effect_def)
next
  case (Some e)
  show ?thesis
    by (rule uniformI[of _ "Inl e" Map.empty "{}" "[]"]) (simp add: mkdir_def Some effect_none)
qed

lemma uniform_write_file: "uniform (write_file ev p d)"
proof (cases "open_err ev p")
  case None
  show ?thesis
    by (rule uniformI[of _ "Inr ()" "[p \<mapsto> d]" "{}" "[]"])
       (simp add: write_file_def None effect_def)
next
  case (Some e)
  show ?thesis
    by (rule uniformI[of _ "Inl e" Map.empty "{}" "[]"]) (simp add: write_file_def Some effect_none)
qed

lemma uniform_try_extract: "uniform (try_extract ev doc dir pdf_name page_num i info)"
proof -
  have "try_extract ev doc dir pdf_name page_num i info =
    (case extract_image doc (xref info) of
        Inl e \<Rightarrow> (\<lambda>w. (Inl e, w))
      | Inr base \<Rightarrow>
          (case bi_image base of
             None \<Rightarrow> (\<lambda>w. (Inl (KeyError ''image''), w))
           | Some image_bytes \<Rightarrow>
               (case bi_ext base of
                  None \<Rightarrow> (\<lambda>w. (Inl (KeyError ''ext''), w))
                | Some image_ext \<Rightarrow>
                    (\<lambda>w. case write_file ev (dir @ [image_filename page_num i image_ext]) (Binary image_bytes) w of
                          (r, w') \<Rightarrow> (case r of Inl e \<Rightarrow> (\<lambda>w'. (Inl e, w'))
                               | Inr _ \<Rightarrow> (\<lambda>w'. (Inr (image_ref pdf_name (image_filename page_num i image_ext)), w'))) w'))))"
    by (rule ext) (simp add: try_extract_def Let_def split: sum.splits option.splits prod.splits)
  moreover have "uniform \<dots>"
    by (auto split: sum.splits option.splits intro!: uniform_bind uniform_return uniform_write_file)
  ultimately show ?thesis by simp
qed

lemma uniform_extract_loop: "uniform (extract_loop ev doc dir pdf_name page_num k imgs acc)"
proof (induction imgs arbitrary: k acc)
  case Nil
  have "extract_loop ev doc dir pdf_name page_num k [] acc = (\<lambda>w. (acc, w))" by (rule ext) simp
  then show ?case by (simp add: uniform_return)
next
  case (Cons info rest)
  have "extract_loop ev doc dir pdf_name page_num k (info # rest) acc =
    (\<lambda>w. case try_extract ev doc dir pdf_name page_num k info w of
       (r, w') \<Rightarrow> (case r of
           Inr r \<Rightarrow> extract_loop ev doc dir pdf_name page_num (Suc k) rest (acc @ [r])
         | Inl e \<Rightarrow> (\<lambda>w'. extract_loop ev doc dir pdf_name page_num (Suc k) rest acc
                (py_print (warning k page_num e) w'))) w')"
    by (rule ext) (simp split: sum.splits prod.splits)
  moreover have "uniform \<dots>"
    by (rule uniform_bind[OF uniform_try_extract])
       (auto split: sum.splits intro: Cons.IH uniform_print_then)
  ultimately show ?case by simp
qed

lemma uniform_extract_images: "uniform (extract_images ev doc pg pdf_name page_num images_dir)"
proof -
  have "extract_images ev doc pg pdf_name page_num images_dir =
     (case get_images pg of
        Inl e \<Rightarrow> (\<lambda>w. (Inl e, w))
      | Inr image_list \<Rightarrow>
          if image_list = [] then (\<lambda>w. (Inr [], w))
          else (\<lambda>w. case mkdir ev (images_dir @ [pdf_name]) w of
                  (r, w') \<Rightarrow> (case r of Inl e \<Rightarrow> (\<lambda>w'. (Inl e, w'))
                     | Inr _ \<Rightarrow> (\<lambda>w'. case extract_loop ev doc (images_dir @ [pdf_name]) pdf_name page_num 1 image_list [] w' of
                       (image_refs, w'') \<Rightarrow> (Inr image_refs, w''))) w'))"
    by (rule ext) (simp add: extract_images_def Let_def split: sum.splits prod.splits)
  moreover have "uniform \<dots>"
    by (auto split: sum.splits intro!: uniform_bind uniform_return uniform_mkdir uniform_extract_loop)
  ultimately show ?thesis by simp
qed

lemma uniform_page_loop: "uniform (page_loop ev doc pdf_name images_dir page_num ps mc)"
proof (induction ps arbitrary: page_num mc)
  case Nil
  have "page_loop ev doc pdf_name images_dir page_num [] mc = (\<lambda>w. (Inr mc, w))" by (rule ext) simp
  then show ?case by (simp add: uniform_return)
next
  case (Cons p ps)
  have "page_loop ev doc pdf_name images_dir page_num (p # ps) mc =
     (case p of
        Inl e \<Rightarrow> (\<lambda>w. (Inl e, w))
      | Inr pg \<Rightarrow>
          (case get_text pg of
             Inl e \<Rightarrow> (\<lambda>w. (Inl e, w))
           | Inr text' \<Rightarrow>
               (\<lambda>w. case extract_images ev doc pg pdf_name page_num images_dir w of
                  (r, w') \<Rightarrow> (case r of Inl e \<Rightarrow> (\<lambda>w'. (Inl e, w'))
                | Inr image_refs \<Rightarrow>
                    page_loop ev doc pdf_name images_dir (Suc page_num) ps
                      (mc @ text_fragments page_num text'
                         @ image_fragments page_num image_refs)) w')))"
    by (rule ext) (simp split: sum.splits prod.splits)
  moreover have "uniform \<dots>"
    by (auto split: sum.splits intro!: uniform_bind uniform_return uniform_extract_images Cons.IH)
  ultimately show ?case by simp
qed

lemma uniform_convert: "uniform (convert_pdf_to_markdown ev pdf output_dir images_dir)"
proof -
  have "convert_pdf_to_markdown ev pdf output_dir images_dir =
     (\<lambda>w. (case fitz_open pdf of
           Inl e \<Rightarrow> (\<lambda>w1. (Inl e, w1))
         | Inr doc \<Rightarrow>
             (\<lambda>w1. case page_loop ev doc (path_stem pdf) images_dir 0 (doc_pages doc) (header_fragments pdf) w1 of
                (r, w2) \<Rightarrow> (case r of Inl e \<Rightarrow> (\<lambda>w2. (Inl e, w2))
              | Inr markdown_content \<Rightarrow>
                  (\<lambda>w2. case write_file ev (output_dir @ [path_stem pdf @ ''.md'']) (Text (join ''\<newline>'' markdown_content)) w2 of
                        (r, w3) \<Rightarrow> (case r of Inl e \<Rightarrow> (\<lambda>w3. (Inl e, w3))
                      | Inr _ \<Rightarrow> (\<lambda>w3. 
                          (Inr (), py_print (''  -> Created: '' @ last (output_dir @ [path_stem pdf @ ''.md''])) w3))) w3)) w2))
         (py_print (''Converting: '' @ path_name pdf) w))"
    by (rule ext) (simp add: convert_pdf_to_markdown_def Let_def split: sum.splits prod.splits)
  moreover have "uniform \<dots>"
    by (rule uniform_print_then)
       (auto split: sum.splits intro!: uniform_bind uniform_return uniform_page_loop uniform_write_file
          uniform_print_then[OF uniform_return])
  ultimately show ?thesis by simp
qed

lemma uniform_convert_all: "uniform (\<lambda>w. ((), convert_all ev output_dir images_dir pdfs w))"
proof (induction pdfs)
  case Nil
  then show ?case by (simp add: uniform_return)
next
  case (Cons pdf rest)
  have "(\<lambda>w. ((), convert_all ev output_dir images_dir (pdf # rest) w)) =
    (\<lambda>w. case convert_pdf_to_markdown ev pdf output_dir images_dir w of
        (r, w') \<Rightarrow> (case r of Inr _ \<Rightarrow> (\<lambda>w'. ((), convert_all ev output_dir images_dir rest w'))
      | Inl e \<Rightarrow> (\<lambda>w'. ((), 
          convert_all ev output_dir images_dir rest
            (py_print (''  Error converting '' @ path_name pdf @ '': '' @ str_exn e) w')))) w')"
    by (rule ext) (simp split: sum.splits prod.splits)
  moreover have "uniform \<dots>"
    by (rule uniform_bind[OF uniform_convert])
       (auto split: sum.splits intro: Cons.IH uniform_print_then[OF Cons.IH])
  ultimately show ?case by simp
qed

lemma uniform_print_after:
  assumes "uniform (\<lambda>w. (r, f w))" shows "uniform (\<lambda>w. (r', py_print s (f w)))"
proof -
  obtain r0 m D out where f: "\<And>w. (r, f w) = (r0, effect m D out w)"
    using assms unfolding uniform_def by blast
  then have f': "\<And>w. f w = effect m D out w" by simp
  show ?thesis
    by (rule uniformI[of _ r' "m ++ Map.empty" "D \<union> {}" "out @ [s]"])
       (simp only: f' print_effect effect_effect)
qed

lemma uniform_main: "uniform (main ev script_dir glob_pdf)"
proof -
  define od where "od = script_dir @ [''docs'', ''markdown'']"
  define pdf_files where "pdf_files = sort_key path_name glob_pdf"
  define rest where "rest = (\<lambda>w2.
      if pdf_files = [] then
        (Inr () :: exn + unit, py_print (''No PDF files found in '' @ str_path (script_dir @ [''docs'', ''nfse-nacional''])) w2)
      else
        (Inr (), py_print (''Images saved to: '' @ str_path (od @ [''images'']))
          (py_print (''Markdown files saved to: '' @ str_path od)
            (py_print (''\<newline>Conversion complete!'')
              (convert_all ev od (od @ [''images'']) pdf_files
                (py_print (''Found '' @ str_nat (length pdf_files)
                                     @ '' PDF files to convert\<newline>'') w2))))))"
  have rest: "uniform rest"
  proof (cases "pdf_files = []")
    case True
    then show ?thesis unfolding rest_def
      by (simp add: uniform_print_then[OF uniform_return])
  next
    case False
    have "uniform (\<lambda>w. ((), convert_all ev od (od @ [''images'']) pdf_files
                (py_print (''Found '' @ str_nat (length pdf_files)
                                     @ '' PDF files to convert\<newline>'') w)))"
      by (rule uniform_print_then[OF uniform_convert_all])
    from uniform_print_after[OF uniform_print_after[OF uniform_print_after[OF this]]]
    show ?thesis unfolding rest_def using False by simp
  qed
  have "main ev script_dir glob_pdf =
     (\<lambda>w. case mkdir ev od w of
           (r, w1) \<Rightarrow> (case r of Inl e \<Rightarrow> (\<lambda>w1. (Inl e, w1))
         | Inr _ \<Rightarrow>
             (\<lambda>w1. case mkdir ev (od @ [''images'']) w1 of
                (r, w2) \<Rightarrow> (case r of Inl e \<Rightarrow> (\<lambda>w2. (Inl e, w2))
              | Inr _ \<Rightarrow> rest) w2)) w1)"
    by (rule ext) (simp add: main_def Let_def od_def pdf_files_def rest_def split: sum.splits prod.splits)
  moreover have "uniform \<dots>"
    by (auto split: sum.splits intro!: uniform_bind uniform_return uniform_mkdir rest)
  ultimately show ?thesis by simp
qed

lemma map_add_twice: "m0 ++ m ++ m = m0 ++ m"
  by (rule ext) (simp add: map_add_def split: option.splits)

subsection \<open>C7: image file names do not collide\<close>



subsection \<open>C6: a second run of the batch changes no file\<close>

text \<open>
  Claim C6. Running the batch a second time on the same input (the same files found,
  the same documents, the same answers of the operating system) leaves every file with
  the content the first run gave it: each Markdown file is written anew with the same
  text, and nothing of the first run is appended to or kept beside it. The whole file
  store after the second run equals the one after the first.
\<close>

theorem batch_idempotent:
  "files (snd (main ev script_dir glob_pdf (snd (main ev script_dir glob_pdf w))))
     = files (snd (main ev script_dir glob_pdf w))"
proof -
  obtain r m D out where f: "\<And>w. main ev script_dir glob_pdf w = (r, effect m D out w)"
    using uniform_main[of ev script_dir glob_pdf] unfolding uniform_def by blast
  show ?thesis by (simp add: f map_add_twice)
qed

theorem batch_idempotent_witness:
  "files (snd (main ex_env [] [ex_pdf, bad_pdf] (snd (main ex_env [] [ex_pdf, bad_pdf] w0))))
     [''docs'', ''markdown'', ''nfse-nacional-manual.md'']
   = Some (Text (''# Nfse Nacional Manual\<newline>\<newline>*Converted from: nfse-nacional-manual.pdf*\<newline>\<newline>---\<newline>''
        @ ''\<newline>\<newline>## Page 1\<newline>\<newline>Hello\<newline>World\<newline>\<newline>''
        @ ''\<newline>\<newline>### Images from Page 1\<newline>\<newline>![Image](images/nfse-nacional-manual/page1_img2.png)\<newline>\<newline>''
        @ ''\<newline>\<newline>### Images from Page 2\<newline>\<newline>![Image](images/nfse-nacional-manual/page2_img1.png)\<newline>\<newline>''))"
proof -
  have "files (snd (main ex_env [] [ex_pdf, bad_pdf] w0)) [''docs'', ''markdown'', ''nfse-nacional-manual.md'']
   = Some (Text (''# Nfse Nacional Manual\<newline>\<newline>*Converted from: nfse-nacional-manual.pdf*\<newline>\<newline>---\<newline>''
        @ ''\<newline>\<newline>## Page 1\<newline>\<newline>Hello\<newline>World\<newline>\<newline>''
        @ ''\<newline>\<newline>### Images from Page 1\<newline>\<newline>![Image](images/nfse-nacional-manual/page1_img2.png)\<newline>\<newline>''
        @ ''\<newline>\<newline>### Images from Page 2\<newline>\<newline>![Image](images/nfse-nacional-manual/page2_img1.png)\<newline>\<newline>''))"
    by code_simp
  then show ?thesis
    using batch_idempotent[of ex_env "[]" "[ex_pdf, bad_pdf]" w0] by simp
qed

subsection \<open>C4: a file that fails does not stop the batch\<close>

lemma uniform_stdout_grows:
  assumes "uniform f" shows "set (stdout w) \<subseteq> set (stdout (snd (f w)))"
proof -
  obtain r m D out where f: "\<And>w. f w = (r, effect m D out w)"
    using assms unfolding uniform_def by blast
  show ?thesis by (simp add: f)
qed

lemma uniform_fst:
  assumes "uniform f" shows "fst (f w) = fst (f w')"
proof -
  obtain r m D out where f: "\<And>w. f w = (r, effect m D out w)"
    using assms unfolding uniform_def by blast
  show ?thesis by (simp add: f)
qed

lemma convert_all_stdout_grows:
  "set (stdout w) \<subseteq> set (stdout (convert_all ev output_dir images_dir pdfs w))"
  using uniform_stdout_grows[OF uniform_convert_all, of w ev output_dir images_dir pdfs] by simp

lemma convert_prints_name:
  "''Converting: '' @ path_name pdf
     \<in> set (stdout (snd (convert_pdf_to_markdown ev pdf output_dir images_dir w)))"
proof -
  let ?w1 = "py_print (''Converting: '' @ path_name pdf) w"
  have in1: "''Converting: '' @ path_name pdf \<in> set (stdout ?w1)" by simp
  show ?thesis
  proof (cases "fitz_open pdf")
    case (Inl e)
    then show ?thesis using in1 by (simp add: convert_pdf_to_markdown_def Let_def)
  next
    case (Inr doc)
    let ?pl = "page_loop ev doc (path_stem pdf) images_dir 0 (doc_pages doc) (header_fragments pdf) ?w1"
    have in2: "''Converting: '' @ path_name pdf \<in> set (stdout (snd ?pl))"
      using uniform_stdout_grows[OF uniform_page_loop, of ?w1] in1 by blast
    show ?thesis
    proof (cases ?pl)
      case (Pair r w2)
      then have in3: "''Converting: '' @ path_name pdf \<in> set (stdout w2)" using in2 by simp
      show ?thesis
      proof (cases r)
        case (Inl e)
        then show ?thesis using Inr Pair in3 by (simp add: convert_pdf_to_markdown_def Let_def)
      next
        case (Inr mc)
        then show ?thesis using \<open>fitz_open pdf = Inr doc\<close> Pair in3
          by (simp add: convert_pdf_to_markdown_def Let_def write_file_def split: option.splits)
      qed
    qed
  qed
qed

lemma convert_all_logs:
  assumes "pdf \<in> set pdfs"
  shows "''Converting: '' @ path_name pdf \<in> set (stdout (convert_all ev output_dir images_dir pdfs w))
     \<and> (\<forall>e w'. fst (convert_pdf_to_markdown ev pdf output_dir images_dir w') = Inl e \<longrightarrow>
          ''  Error converting '' @ path_name pdf @ '': '' @ str_exn e
            \<in> set (stdout (convert_all ev output_dir images_dir pdfs w)))"
  using assms
proof (induction pdfs arbitrary: w)
  case Nil
  then show ?case by simp
next
  case (Cons p rest)
  obtain r w1 where c: "convert_pdf_to_markdown ev p output_dir images_dir w = (r, w1)"
    by (cases "convert_pdf_to_markdown ev p output_dir images_dir w")
  show ?case
  proof (cases "pdf = p")
    case True
    have name: "''Converting: '' @ path_name pdf \<in> set (stdout w1)"
      using convert_prints_name[of pdf ev output_dir images_dir w] c True by simp
    show ?thesis
    proof (cases r)
      case (Inr u)
      have "\<And>e w'. fst (convert_pdf_to_markdown ev pdf output_dir images_dir w') \<noteq> Inl e"
        using uniform_fst[OF uniform_convert, of ev pdf output_dir images_dir _ w] c True Inr by simp
      then show ?thesis using c Inr True name convert_all_stdout_grows[of w1 ev output_dir images_dir rest]
        by auto
    next
      case (Inl e)
      let ?w2 = "py_print (''  Error converting '' @ path_name p @ '': '' @ str_exn e) w1"
      have e: "\<And>e' w'. fst (convert_pdf_to_markdown ev pdf output_dir images_dir w') = Inl e' \<Longrightarrow> e' = e"
        using uniform_fst[OF uniform_convert, of ev pdf output_dir images_dir _ w] c True Inl by simp
      have "''Converting: '' @ path_name pdf \<in> set (stdout ?w2)" using name by simp
      moreover have "''  Error converting '' @ path_name pdf @ '': '' @ str_exn e \<in> set (stdout ?w2)"
        using True by simp
      ultimately show ?thesis
        using c Inl e convert_all_stdout_grows[of ?w2 ev output_dir images_dir rest] by auto
    qed
  next
    case False
    then have "pdf \<in> set rest" using Cons.prems by simp
    from Cons.IH[OF this] show ?thesis using c by (cases r) simp_all
  qed
qed




subsection \<open>extract\_images, as a whole\<close>

lemma extract_loop_files_written:
  assumes "j < length imgs" "attempt ev doc dir page_num (k + j) (imgs ! j) = Inr (fname, b)"
  shows "files (snd (extract_loop ev doc dir pdf_name page_num k imgs acc w)) (dir @ [fname]) = Some (Binary b)"
  using assms
proof (induction imgs arbitrary: j k acc w)
  case Nil
  then show ?case by simp
next
  case (Cons info rest)
  show ?case
  proof (cases j)
    case 0
    then have a: "attempt ev doc dir page_num k info = Inr (fname, b)" using Cons.prems by simp
    obtain x where x: "fname = image_filename page_num k x" using attempt_Inr[OF a] by blast
    have "\<And>i x'. Suc k \<le> i \<Longrightarrow> dir @ [fname] \<noteq> dir @ [image_filename page_num i x']"
      using x image_filename_inj[of page_num k x page_num] by auto
    from extract_loop_files_other[OF this]
    show ?thesis using a by (simp add: try_extract_attempt)
  next
    case (Suc j')
    then have j': "j' < length rest" "attempt ev doc dir page_num (Suc k + j') (rest ! j') = Inr (fname, b)"
      using Cons.prems by simp_all
    show ?thesis using Cons.IH[OF j']
      by (cases "attempt ev doc dir page_num k info") (auto simp: try_extract_attempt)
  qed
qed

lemma extract_loop_files_unchanged:
  assumes "\<forall>(i, info) \<in> set (enumerate k imgs). \<exists>e. attempt ev doc dir page_num i info = Inl e"
  shows "files (snd (extract_loop ev doc dir pdf_name page_num k imgs acc w)) = files w"
  using assms
  by (induction imgs arbitrary: k acc w) (auto simp: try_extract_attempt)

lemma extract_images_eq:
  "extract_images ev doc pg pdf_name page_num images_dir w =
     (case get_images pg of
        Inl e \<Rightarrow> (Inl e, w)
      | Inr imgs \<Rightarrow>
          if imgs = [] then (Inr [], w)
          else (case mkdir_err ev (images_dir @ [pdf_name]) of
                  Some e \<Rightarrow> (Inl e, w)
                | None \<Rightarrow>
                    (Inr (refs_of ev doc (images_dir @ [pdf_name]) pdf_name page_num 1 imgs),
                     snd (extract_loop ev doc (images_dir @ [pdf_name]) pdf_name page_num 1 imgs []
                       (w\<lparr>dirs := dirs w \<union> set (prefixes (images_dir @ [pdf_name]))\<rparr>)))))"
  by (simp add: extract_images_def mkdir_def Let_def case_prod_beta extract_loop_refs
      split: sum.splits option.splits)

lemma concat_map_singletons:
  assumes "\<forall>x \<in> set xs. g x = [h x]"
  shows "concat (map g xs) = map h xs"
  using assms by (induction xs) simp_all

lemma refs_of_concat:
  "refs_of ev doc dir pdf_name page_num k imgs =
     concat (map (\<lambda>(i, info). case fst (try_extract ev doc dir pdf_name page_num i info w) of
                                 Inl e \<Rightarrow> [] | Inr r \<Rightarrow> [r]) (enumerate k imgs))"
  unfolding refs_of_def
  by (rule arg_cong[where f = concat], rule map_cong)
     (auto simp: fst_try_extract split: sum.splits prod.splits)

lemma warnings_logged:
  assumes "(i, info) \<in> set (enumerate k imgs)" "attempt ev doc dir page_num i info = Inl e"
  shows "warning i page_num e \<in> set (warnings_of ev doc dir page_num k imgs)"
  using assms unfolding warnings_of_def by force

text \<open>The sample run, step by step.\<close>

lemma ex_try5:
  "try_extract ex_env ex_doc dir pdf_name page_num i \<lparr>xref = 5\<rparr> w = (Inl (Exception ''bad image''), w)"
  by (simp add: try_extract_def ex_doc_def)

lemma ex_try6:
  "try_extract ex_env ex_doc dir pdf_name page_num i \<lparr>xref = 6\<rparr> w =
     (Inr (image_ref pdf_name (image_filename page_num i ''png'')),
      w\<lparr>files := (files w)(dir @ [image_filename page_num i ''png''] \<mapsto> Binary ''PNGDATA'')\<rparr>)"
  by (simp add: try_extract_def ex_doc_def write_file_def ex_env_def Let_def)

lemma ex_names:
  "image_filename 0 1 x = ''page1_img1.'' @ x" "image_filename 0 2 x = ''page1_img2.'' @ x"
  "image_filename 1 1 x = ''page2_img1.'' @ x"
  "image_filename 0 (Suc 0) x = ''page1_img1.'' @ x"
  "image_filename 0 (Suc (Suc 0)) x = ''page1_img2.'' @ x"
  "image_filename (Suc 0) (Suc 0) x = ''page2_img1.'' @ x"
  by (simp_all add: image_filename_def str_nat.simps digit_def)

subsection \<open>C5: an image that fails is left out, the others are not\<close>

text \<open>
  Claim C5. When the page's image list is read and the directory is made,
  \<^verbatim>\<open>extract_images\<close> never raises: it returns the references of exactly the images
  whose extraction succeeds, in the order of the listing, and nothing in place of the
  others; for each image that fails, the warning naming the image's index and the page
  is printed. Whether one image fails does not depend on the world, so each attempt is
  judged from the world the function starts in.
\<close>

theorem failed_images_are_skipped:
  assumes "get_images pg = Inr imgs"
      and "mkdir_err ev (images_dir @ [pdf_name]) = None"
  shows "\<exists>w'. extract_images ev doc pg pdf_name page_num images_dir w =
           (Inr (concat (map (\<lambda>(i, info).
                   case fst (try_extract ev doc (images_dir @ [pdf_name]) pdf_name page_num i info w) of
                     Inl e \<Rightarrow> [] | Inr r \<Rightarrow> [r]) (enumerate 1 imgs))), w')
         \<and> (\<forall>(i, info) \<in> set (enumerate 1 imgs). \<forall>e.
               fst (try_extract ev doc (images_dir @ [pdf_name]) pdf_name page_num i info w) = Inl e \<longrightarrow>
                 ''    Warning: Could not extract image '' @ str_nat i @ '' from page ''
                    @ str_nat (page_num + 1) @ '': '' @ str_exn e \<in> set (stdout w'))"
proof (cases "imgs = []")
  case True
  then show ?thesis using assms by (simp add: extract_images_eq enumerate_eq_zip)
next
  case False
  let ?d = "images_dir @ [pdf_name]"
  let ?w1 = "w\<lparr>dirs := dirs w \<union> set (prefixes ?d)\<rparr>"
  let ?w' = "snd (extract_loop ev doc ?d pdf_name page_num 1 imgs [] ?w1)"
  have 1: "extract_images ev doc pg pdf_name page_num images_dir w =
      (Inr (refs_of ev doc ?d pdf_name page_num 1 imgs), ?w')"
    using assms False by (simp add: extract_images_eq)
  have 2: "warning i page_num e \<in> set (stdout ?w')"
    if "(i, info) \<in> set (enumerate 1 imgs)"
       "fst (try_extract ev doc ?d pdf_name page_num i info w) = Inl e" for i info e
  proof -
    have "attempt ev doc ?d page_num i info = Inl e"
      using that(2) by (auto simp: fst_try_extract split: sum.splits prod.splits)
    from warnings_logged[OF that(1) this] show ?thesis by (simp add: extract_loop_stdout)
  qed
  show ?thesis
    unfolding 1 refs_of_concat[of ev doc ?d pdf_name page_num 1 imgs w]
    using 2 by (auto simp: warning_def)
qed

theorem failed_images_are_skipped_witness:
  "fst (extract_images ex_env ex_doc ex_page1 ''doc'' 0 [''images''] w0)
      = Inr [''![Image](images/doc/page1_img2.png)'']
   \<and> ''    Warning: Could not extract image 1 from page 1: bad image''
        \<in> set (stdout (snd (extract_images ex_env ex_doc ex_page1 ''doc'' 0 [''images''] w0)))"
proof -
  have g: "get_images ex_page1 = Inr [\<lparr>xref = 5\<rparr>, \<lparr>xref = 6\<rparr>]" by (simp add: ex_page1_def)
  have m: "mkdir_err ex_env ([''images''] @ [''doc'']) = None" by (simp add: ex_env_def)
  from failed_images_are_skipped[OF g m, of ex_doc 0 w0]
  obtain w' where 1: "extract_images ex_env ex_doc ex_page1 ''doc'' 0 [''images''] w0 =
      (Inr [''![Image](images/doc/page1_img2.png)''], w')"
    and 2: "''    Warning: Could not extract image '' @ str_nat 1 @ '' from page ''
                    @ str_nat (0 + 1) @ '': '' @ str_exn (Exception ''bad image'') \<in> set (stdout w')"
    by (auto simp: ex_try5 ex_try6 ex_names image_ref_def)
  show ?thesis using 1 2 by (simp add: str_nat.simps digit_def)
qed

subsection \<open>C10: the image directory is made exactly when the page lists an image\<close>

text \<open>
  Claim C10. For a page that lists no image \<^verbatim>\<open>extract_images\<close> returns at once and
  leaves the world as it is. For a page that lists at least one image the directory
  \<^verbatim>\<open>images_dir / pdf_name\<close> is made (the \<^verbatim>\<open>mkdir\<close> succeeding), so after the call
  the directory exists exactly when the page lists an image or it existed before; and
  when every extraction then fails, no file is written and no reference returned: the
  directory stays behind, empty if it was new.
\<close>

theorem image_directory_made_iff_images_listed:
  assumes "get_images pg = Inr imgs"
      and "mkdir_err ev (images_dir @ [pdf_name]) = None"
  shows "(imgs = [] \<longrightarrow> extract_images ev doc pg pdf_name page_num images_dir w = (Inr [], w))
     \<and> ((images_dir @ [pdf_name] \<in> dirs (snd (extract_images ev doc pg pdf_name page_num images_dir w)))
          = (imgs \<noteq> [] \<or> images_dir @ [pdf_name] \<in> dirs w))
     \<and> ((\<forall>(i, info) \<in> set (enumerate 1 imgs).
            \<exists>e. fst (try_extract ev doc (images_dir @ [pdf_name]) pdf_name page_num i info w) = Inl e) \<longrightarrow>
          files (snd (extract_images ev doc pg pdf_name page_num images_dir w)) = files w
          \<and> fst (extract_images ev doc pg pdf_name page_num images_dir w) = Inr [])"
proof (cases "imgs = []")
  case True
  then show ?thesis using assms by (simp add: extract_images_eq)
next
  case False
  let ?d = "images_dir @ [pdf_name]"
  have 1: "?d \<in> dirs (snd (extract_images ev doc pg pdf_name page_num images_dir w))"
    using assms False by (simp add: extract_images_eq extract_loop_dirs)
  have 2: "files (snd (extract_images ev doc pg pdf_name page_num images_dir w)) = files w
      \<and> fst (extract_images ev doc pg pdf_name page_num images_dir w) = Inr []"
    if a: "\<forall>(i, info) \<in> set (enumerate 1 imgs).
            \<exists>e. fst (try_extract ev doc ?d pdf_name page_num i info w) = Inl e"
  proof -
    have b: "\<forall>(i, info) \<in> set (enumerate 1 imgs). \<exists>e. attempt ev doc ?d page_num i info = Inl e"
    proof (clarify)
      fix i info assume "(i, info) \<in> set (enumerate 1 imgs)"
      then obtain e where "fst (try_extract ev doc ?d pdf_name page_num i info w) = Inl e"
        using a by blast
      then show "\<exists>e. attempt ev doc ?d page_num i info = Inl e"
        by (cases "attempt ev doc ?d page_num i info")
           (auto simp: fst_try_extract split: prod.splits)
    qed
    have "refs_of ev doc ?d pdf_name page_num 1 imgs = []"
      unfolding refs_of_def using b by (auto split: sum.splits)
    then show ?thesis
      using assms False extract_loop_files_unchanged[OF b] by (simp add: extract_images_eq)
  qed
  show ?thesis using False 1 2 by blast
qed

theorem image_directory_made_iff_images_listed_witness:
  "[''images'', ''doc''] \<in> dirs (snd (extract_images ex_env ex_doc ex_page3 ''doc'' 0 [''images''] w0))
   \<and> [''images'', ''doc''] \<notin> dirs w0
   \<and> files (snd (extract_images ex_env ex_doc ex_page3 ''doc'' 0 [''images''] w0)) = Map.empty
   \<and> fst (extract_images ex_env ex_doc ex_page3 ''doc'' 0 [''images''] w0) = Inr []"
proof -
  have g: "get_images ex_page3 = Inr [\<lparr>xref = 5\<rparr>]" by (simp add: ex_page3_def)
  have m: "mkdir_err ex_env ([''images''] @ [''doc'']) = None" by (simp add: ex_env_def)
  from image_directory_made_iff_images_listed[OF g m, of ex_doc 0 w0]
  show ?thesis by (simp add: ex_try5 w0_def)
qed

subsection \<open>C1: a page whose images all extract\<close>




subsection \<open>The page loop and the files\<close>

lemma extract_images_files_other:
  assumes "\<And>i x. q \<noteq> images_dir @ [pdf_name, image_filename page_num i x]"
  shows "files (snd (extract_images ev doc pg pdf_name page_num images_dir w)) q = files w q"
proof -
  have "\<And>i x. 1 \<le> i \<Longrightarrow> q \<noteq> (images_dir @ [pdf_name]) @ [image_filename page_num i x]"
    using assms by simp
  from extract_loop_files_other[OF this]
  show ?thesis by (simp add: extract_images_eq split: sum.splits option.splits)
qed

lemma page_loop_files_other:
  assumes "\<And>n' i x. n \<le> n' \<Longrightarrow> q \<noteq> images_dir @ [pdf_name, image_filename n' i x]"
  shows "files (snd (page_loop ev doc pdf_name images_dir n ps mc w)) q = files w q"
  using assms
proof (induction ps arbitrary: n mc w)
  case Nil
  then show ?case by simp
next
  case (Cons p ps)
  have ih: "\<And>mc w. files (snd (page_loop ev doc pdf_name images_dir (Suc n) ps mc w)) q = files w q"
    using Cons.IH[of "Suc n"] Cons.prems by simp
  have ei: "\<And>pg. files (snd (extract_images ev doc pg pdf_name n images_dir w)) q = files w q"
    using extract_images_files_other[of q images_dir pdf_name n] Cons.prems[of n] by simp
  show ?case
  proof (cases p)
    case (Inl e)
    then show ?thesis by simp
  next
    case (Inr pg)
    show ?thesis
    proof (cases "get_text pg")
      case (Inl e)
      then show ?thesis using Inr by simp
    next
      case t: (Inr t)
      obtain r w' where x: "extract_images ev doc pg pdf_name n images_dir w = (r, w')"
        by (cases "extract_images ev doc pg pdf_name n images_dir w")
      then have "files w' q = files w q" using ei[of pg] by simp
      then show ?thesis using Inr t x ih by (cases r) simp_all
    qed
  qed
qed

lemma page_loop_image_kept:
  assumes "j < length ps"
      and "\<forall>j' \<le> j. page_passes ev images_dir pdf_name (ps ! j')"
      and "ps ! j = Inr pg" and "get_images pg = Inr imgs" and "k < length imgs"
      and "attempt ev doc (images_dir @ [pdf_name]) (n + j) (k + 1) (imgs ! k) = Inr (fname, b)"
  shows "files (snd (page_loop ev doc pdf_name images_dir n ps mc w)) (images_dir @ [pdf_name, fname])
           = Some (Binary b)"
  using assms
proof (induction ps arbitrary: n j mc w)
  case Nil
  then show ?case by simp
next
  case (Cons p ps)
  have "page_passes ev images_dir pdf_name p" using Cons.prems(2) by force
  then obtain pg0 t l0 where p: "p = Inr pg0" "get_text pg0 = Inr t" "get_images pg0 = Inr l0"
      "l0 = [] \<or> mkdir_err ev (images_dir @ [pdf_name]) = None"
    by (auto simp: page_passes_def split: sum.splits)
  obtain r w' where x: "extract_images ev doc pg0 pdf_name n images_dir w = (r, w')"
    by (cases "extract_images ev doc pg0 pdf_name n images_dir w")
  then obtain refs where r: "r = Inr refs"
    using p by (auto simp: extract_images_eq split: if_splits)
  have step: "page_loop ev doc pdf_name images_dir n (p # ps) mc w =
      page_loop ev doc pdf_name images_dir (Suc n) ps
        (mc @ text_fragments n t @ image_fragments n refs) w'"
    using p x r by simp
  show ?case
  proof (cases j)
    case 0
    then have pg: "pg0 = pg" "l0 = imgs" using Cons.prems(3,4) p by simp_all
    have a: "attempt ev doc (images_dir @ [pdf_name]) n (1 + k) (imgs ! k) = Inr (fname, b)"
      using Cons.prems(6) 0 by simp
    have "imgs \<noteq> []" using Cons.prems(5) by auto
    then have "files w' (images_dir @ [pdf_name, fname]) = Some (Binary b)"
      using extract_loop_files_written[OF Cons.prems(5) a] x p pg
      by (auto simp: extract_images_eq)
    moreover obtain x' where "fname = image_filename n (1 + k) x'" using attempt_Inr[OF a] by blast
    then have "\<And>n' i x. Suc n \<le> n' \<Longrightarrow>
        images_dir @ [pdf_name, fname] \<noteq> images_dir @ [pdf_name, image_filename n' i x]"
      using image_filename_inj[of n "1 + k" x'] by auto
    from page_loop_files_other[OF this]
    have "files (snd (page_loop ev doc pdf_name images_dir (Suc n) ps
        (mc @ text_fragments n t @ image_fragments n refs) w')) (images_dir @ [pdf_name, fname])
        = files w' (images_dir @ [pdf_name, fname])" .
    ultimately show ?thesis using step by simp
  next
    case (Suc j2)
    have 1: "j2 < length ps" using Cons.prems(1) Suc by simp
    have 2: "\<forall>j' \<le> j2. page_passes ev images_dir pdf_name (ps ! j')"
      using Cons.prems(2) Suc by (metis Suc_le_mono nth_Cons_Suc)
    have 3: "ps ! j2 = Inr pg" using Cons.prems(3) Suc by simp
    have 4: "attempt ev doc (images_dir @ [pdf_name]) (Suc n + j2) (k + 1) (imgs ! k) = Inr (fname, b)"
      using Cons.prems(6) Suc by simp
    from Cons.IH[OF 1 2 3 Cons.prems(4,5) 4] show ?thesis using step by simp
  qed
qed

subsection \<open>C9: a conversion that fails writes no Markdown file, and keeps its images\<close>



subsection \<open>Lines, separators, trimming\<close>

lemma split_str_append:
  "split_str sep (a @ sep # b) = split_str sep a @ split_str sep b"
proof (induction a)
  case Nil
  then show ?case by simp
next
  case (Cons c a)
  obtain l ls where "split_str sep a = l # ls"
    using split_str_not_Nil[of sep a] by (cases "split_str sep a") auto
  then show ?case using Cons by simp
qed

lemma split_str_no_sep: "sep \<notin> set s \<Longrightarrow> split_str sep s = [s]"
  by (induction s) auto

lemma split_str_lines_no_sep: "l \<in> set (split_str sep s) \<Longrightarrow> sep \<notin> set l"
proof (induction s arbitrary: l)
  case Nil
  then show ?case by simp
next
  case (Cons c s)
  show ?case
  proof (cases "c = sep")
    case True
    then show ?thesis using Cons by auto
  next
    case False
    obtain l' ls where sp: "split_str sep s = l' # ls"
      using split_str_not_Nil[of sep s] by (cases "split_str sep s") auto
    then have "l = c # l' \<or> l \<in> set ls" using Cons.prems False by simp
    then show ?thesis using Cons.IH[of l'] Cons.IH[of l] sp False by auto
  qed
qed

lemma split_str_chars: "\<Union> (set ` set (split_str sep s)) = set s - {sep}"
proof (induction s)
  case Nil
  then show ?case by simp
next
  case (Cons c s)
  obtain l' ls where sp: "split_str sep s = l' # ls"
    using split_str_not_Nil[of sep s] by (cases "split_str sep s") auto
  show ?case using Cons sp by (cases "c = sep") auto
qed

lemma split_join:
  "ls \<noteq> [] \<Longrightarrow> split_str sep (join [sep] ls) = concat (map (split_str sep) ls)"
proof (induction ls)
  case Nil
  then show ?case by simp
next
  case (Cons x xs)
  show ?case
  proof (cases "xs = []")
    case True
    then show ?thesis by simp
  next
    case False
    then have "join [sep] (x # xs) = x @ sep # join [sep] xs" by (simp add: join_Cons)
    then show ?thesis using Cons.IH[OF False] by (simp add: split_str_append)
  qed
qed

lemma split_join_lines:
  assumes "ls \<noteq> []" "\<forall>l \<in> set ls. sep \<notin> set l"
  shows "split_str sep (join [sep] ls) = ls"
proof -
  have "concat (map (split_str sep) ls) = concat (map (\<lambda>l. [l]) ls)"
    by (rule arg_cong[where f = concat], rule map_cong) (use assms(2) in \<open>auto simp: split_str_no_sep\<close>)
  then show ?thesis using split_join[OF assms(1), of sep] by simp
qed

lemma join_split: "join [sep] (split_str sep s) = s"
proof (induction s)
  case Nil
  then show ?case by simp
next
  case (Cons c s)
  obtain l' ls where sp: "split_str sep s = l' # ls"
    using split_str_not_Nil[of sep s] by (cases "split_str sep s") auto
  show ?case using Cons sp by (cases "c = sep") (auto simp: join_Cons)
qed

lemma dropWhile_hd: "xs \<noteq> [] \<Longrightarrow> \<not> P (hd xs) \<Longrightarrow> dropWhile P xs = xs"
  by (cases xs) auto

lemma strip_eq_Nil: "(strip s = []) = (\<forall>c \<in> set s. isspace c)"
proof
  assume "strip s = []"
  then have "dropWhile isspace (rev (dropWhile isspace s)) = []" by (simp add: strip_def)
  then have a: "\<forall>c \<in> set (dropWhile isspace s). isspace c"
    using dropWhile_eq_Nil_conv[of isspace "rev (dropWhile isspace s)"] by simp
  have "dropWhile isspace s = []"
  proof (rule ccontr)
    assume n: "dropWhile isspace s \<noteq> []"
    then have "\<not> isspace (hd (dropWhile isspace s))" by (rule hd_dropWhile)
    moreover have "hd (dropWhile isspace s) \<in> set (dropWhile isspace s)" using n by simp
    ultimately show False using a by blast
  qed
  then show "\<forall>c \<in> set s. isspace c"
    using dropWhile_eq_Nil_conv[of isspace s] by blast
next
  assume "\<forall>c \<in> set s. isspace c"
  then show "strip s = []" by (auto simp: strip_def dest: set_dropWhileD)
qed

lemma set_strip: "set (strip s) \<subseteq> set s"
proof
  fix x assume "x \<in> set (strip s)"
  then have "x \<in> set (dropWhile isspace (rev (dropWhile isspace s)))" by (simp add: strip_def)
  then have "x \<in> set (rev (dropWhile isspace s))" by (rule set_dropWhileD)
  then have "x \<in> set (dropWhile isspace s)" by simp
  then show "x \<in> set s" by (rule set_dropWhileD)
qed

lemma strip_ends:
  assumes "strip s \<noteq> []"
  shows "\<not> isspace (hd (strip s)) \<and> \<not> isspace (last (strip s))"
proof -
  let ?d = "dropWhile isspace s"
  let ?r = "dropWhile isspace (rev ?d)"
  have r: "?r \<noteq> []" using assms by (simp add: strip_def)
  then have 1: "\<not> isspace (hd ?r)" by (rule hd_dropWhile)
  have d: "?d \<noteq> []" using r by (auto dest: set_dropWhileD)
  then have 2: "\<not> isspace (hd ?d)" by (rule hd_dropWhile)
  have "rev ?d = takeWhile isspace (rev ?d) @ ?r" by simp
  then have "?d = rev ?r @ rev (takeWhile isspace (rev ?d))"
    by (metis rev_append rev_rev_ident)
  then have "hd ?d = hd (rev ?r)" using r by (metis hd_append2 rev_is_Nil_conv)
  then have "\<not> isspace (hd (rev ?r))" using 2 by simp
  moreover have "last (rev ?r) = hd ?r" using r by (simp add: last_rev)
  ultimately show ?thesis using 1 by (simp add: strip_def)
qed

lemma strip_fixed:
  assumes "s \<noteq> [] \<longrightarrow> \<not> isspace (hd s) \<and> \<not> isspace (last s)"
  shows "strip s = s"
proof (cases "s = []")
  case True
  then show ?thesis by (simp add: strip_def)
next
  case False
  then have h: "\<not> isspace (hd s)" "\<not> isspace (last s)" using assms by simp_all
  have 1: "dropWhile isspace s = s" using False h(1) by (rule dropWhile_hd)
  have "rev s \<noteq> []" "\<not> isspace (hd (rev s))" using False h(2) by (simp_all add: hd_rev)
  then have "dropWhile isspace (rev s) = rev s" by (rule dropWhile_hd)
  then show ?thesis using 1 by (simp add: strip_def)
qed

lemma strip_strip: "strip (strip s) = strip s"
  by (rule strip_fixed) (use strip_ends in blast)

lemma process_lines_filter:
  "process_lines ls acc = acc @ filter (\<lambda>l. l \<noteq> []) (map strip ls)"
  by (induction ls arbitrary: acc) (simp_all add: Let_def)

lemma newline_isspace: "isspace CHR ''\<newline>''"
  by (simp add: isspace_def)

lemma nonblank_has_line:
  assumes "strip t \<noteq> []"
  shows "filter (\<lambda>l. l \<noteq> []) (map strip (split_str CHR ''\<newline>'' t)) \<noteq> []"
proof -
  obtain c where c: "c \<in> set t" "\<not> isspace c" using assms strip_eq_Nil by blast
  then have "c \<noteq> CHR ''\<newline>''" using newline_isspace by auto
  then have "c \<in> \<Union> (set ` set (split_str CHR ''\<newline>'' t))"
    using c(1) by (simp add: split_str_chars)
  then obtain l where l: "l \<in> set (split_str CHR ''\<newline>'' t)" "c \<in> set l" by auto
  then have "strip l \<noteq> []" using c(2) strip_eq_Nil by blast
  then show ?thesis using l(1) by (auto simp: filter_empty_conv)
qed

subsection \<open>C3: what one page adds to the Markdown\<close>

lemma clean_lines:
  assumes "strip t \<noteq> []"
  shows "split_str CHR ''\<newline>'' (spec_clean_text t)
           = filter (\<lambda>l. l \<noteq> []) (map strip (split_str CHR ''\<newline>'' t))"
proof -
  let ?L = "filter (\<lambda>l. l \<noteq> []) (map strip (split_str CHR ''\<newline>'' t))"
  have "\<forall>l \<in> set ?L. CHR ''\<newline>'' \<notin> set l"
  proof
    fix l assume "l \<in> set ?L"
    then obtain l0 where l0: "l0 \<in> set (split_str CHR ''\<newline>'' t)" "l = strip l0" by auto
    have "CHR ''\<newline>'' \<notin> set l0" using l0(1) by (rule split_str_lines_no_sep)
    then show "CHR ''\<newline>'' \<notin> set l" using l0(2) set_strip[of l0] by blast
  qed
  from split_join_lines[OF nonblank_has_line[OF assms] this]
  show ?thesis by (simp add: spec_clean_text_def)
qed

lemma ex_extract1_fst:
  "fst (extract_images ex_env ex_doc ex_page1 ''doc'' 0 [''images''] w0)
     = Inr [''![Image](images/doc/page1_img2.png)'']"
  by (simp add: extract_images_eq ex_page1_def ex_doc_def ex_env_def refs_of_def attempt_def
      ex_names image_ref_def)

lemma ex_extract1:
  "extract_images ex_env ex_doc ex_page1 ''doc'' 0 [''images''] w0 =
     (Inr [''![Image](images/doc/page1_img2.png)''],
      snd (extract_images ex_env ex_doc ex_page1 ''doc'' 0 [''images''] w0))"
  using ex_extract1_fst by (simp add: prod_eq_iff)

lemma ex_text1: "strip ''  Hello \<newline>\<newline>  World  \<newline>'' \<noteq> []"
  by (simp add: strip_def isspace_def)

lemma ex_text2:
  "spec_clean_text ''  Hello \<newline>\<newline>  World  \<newline>'' = ''Hello\<newline>World''"
  by (simp add: spec_clean_text_def strip_def isspace_def)

text \<open>
  Claim C3. One turn of the page loop, for a page whose text is read and whose images
  are handled without an exception, appends: when the text is not blank, the heading
  \<^verbatim>\<open>## Page <n>\<close>, then the text block as the specification words it, then a line
  break; when the text is empty or white space only, nothing for the text; and in both
  cases, when there are image references, the subheading \<^verbatim>\<open>### Images from Page <n>\<close>
  and the references with an empty line between them. The lines of the text block are
  exactly the trimmed lines of the page's text that are not blank, in order: none is
  empty, none begins or ends with white space.
\<close>

theorem page_fragments:
  assumes "get_text pg = Inr t"
      and "extract_images ev doc pg pdf_name page_num images_dir w = (Inr image_refs, w')"
  shows "page_loop ev doc pdf_name images_dir page_num (Inr pg # ps) markdown_content w =
           page_loop ev doc pdf_name images_dir (Suc page_num) ps
             (markdown_content
                @ (if strip t \<noteq> [] then
                     [''\<newline>## Page '' @ str_nat (page_num + 1) @ ''\<newline>'',
                      spec_clean_text t, ''\<newline>'']
                   else [])
                @ (if image_refs \<noteq> [] then
                     [''\<newline>### Images from Page '' @ str_nat (page_num + 1) @ ''\<newline>'',
                      join ''\<newline>\<newline>'' image_refs, ''\<newline>'']
                   else [])) w'
     \<and> (strip t \<noteq> [] \<longrightarrow>
           split_str CHR ''\<newline>'' (spec_clean_text t)
             = filter (\<lambda>l. l \<noteq> []) (map strip (split_str CHR ''\<newline>'' t))
           \<and> (\<forall>l \<in> set (split_str CHR ''\<newline>'' (spec_clean_text t)). l \<noteq> [] \<and> strip l = l))"
proof -
  have 1: "text_fragments page_num t =
      (if strip t \<noteq> [] then
         [''\<newline>## Page '' @ str_nat (page_num + 1) @ ''\<newline>'', spec_clean_text t, ''\<newline>'']
       else [])"
    by (simp add: text_fragments_def spec_clean_text_def process_lines_filter)
  have 2: "\<forall>l \<in> set (split_str CHR ''\<newline>'' (spec_clean_text t)). l \<noteq> [] \<and> strip l = l"
    if "strip t \<noteq> []"
    unfolding clean_lines[OF that] by (auto simp: strip_strip)
  have A: "page_loop ev doc pdf_name images_dir page_num (Inr pg # ps) markdown_content w =
           page_loop ev doc pdf_name images_dir (Suc page_num) ps
             (markdown_content @ text_fragments page_num t @ image_fragments page_num image_refs) w'"
    using assms by simp
  show ?thesis
    unfolding A 1 image_fragments_def using 2 clean_lines by blast
qed

theorem page_fragments_witness:
  "fst (page_loop ex_env ex_doc ''doc'' [''images''] 0 [Inr ex_page1] [] w0) =
     Inr [''\<newline>## Page 1\<newline>'', ''Hello\<newline>World'', ''\<newline>'',
          ''\<newline>### Images from Page 1\<newline>'', ''![Image](images/doc/page1_img2.png)'', ''\<newline>'']
   \<and> split_str CHR ''\<newline>'' (spec_clean_text ''  Hello \<newline>\<newline>  World  \<newline>'') = [''Hello'', ''World'']"
proof -
  have g: "get_text ex_page1 = Inr ''  Hello \<newline>\<newline>  World  \<newline>''" by (simp add: ex_page1_def)
  from page_fragments[OF g ex_extract1, of "[]" "[]"] ex_text1 ex_text2
  show ?thesis by (simp add: str_nat.simps digit_def)
qed

subsection \<open>C8: the title line\<close>

lemma space_uncased:
  "\<not> iscased CHR '' ''" "upper CHR '' '' = CHR '' ''" "lower CHR '' '' = CHR '' ''"
  by (simp_all add: iscased_def islower_def isupper_def upper_def lower_def)

lemma title_from_words:
  assumes "\<forall>c \<in> set stem. iscased c \<or> c = CHR ''-''"
  shows "title_from b (replace CHR ''-'' CHR '' '' stem) =
     (case split_str CHR ''-'' stem of
        w # ws \<Rightarrow> join '' '' ((if b then map lower w else capitalize w) # map capitalize ws))"
  using assms
proof (induction stem arbitrary: b)
  case Nil
  then show ?case by (simp add: replace_def capitalize_def)
next
  case (Cons c cs)
  obtain w ws where sp: "split_str CHR ''-'' cs = w # ws"
    using split_str_not_Nil[of "CHR ''-''" cs] by (cases "split_str CHR ''-'' cs") auto
  have ih: "\<And>b. title_from b (replace CHR ''-'' CHR '' '' cs) =
      join '' '' ((if b then map lower w else capitalize w) # map capitalize ws)"
    using Cons sp by simp
  show ?case
  proof (cases "c = CHR ''-''")
    case True
    then show ?thesis using ih[of False] sp
      by (simp add: replace_def join_Cons capitalize_def space_uncased)
  next
    case False
    then have "iscased c" using Cons.prems by simp
    then show ?thesis using ih[of True] sp False
      by (simp add: replace_def join_Cons capitalize_def)
  qed
qed

lemma title_spec:
  assumes "\<forall>c \<in> set stem. iscased c \<or> c = CHR ''-''"
  shows "title (replace CHR ''-'' CHR '' '' stem) = spec_title stem"
  using title_from_words[OF assms, of False] split_str_not_Nil[of "CHR ''-''" stem]
  by (cases "split_str CHR ''-'' stem") (simp_all add: title_def spec_title_def)

lemma title_example:
  "title (replace CHR ''-'' CHR '' '' ''nfse-nacional-manual'') = ''Nfse Nacional Manual''"
  by code_simp

lemma page_loop_extends:
  "page_loop ev doc pdf_name images_dir n ps mc w = (Inr mc', w') \<Longrightarrow> \<exists>fr. mc' = mc @ fr"
proof (induction ps arbitrary: n mc w)
  case Nil
  then show ?case by simp
next
  case (Cons p ps)
  from Cons.prems obtain pg t refs w1 where
    "page_loop ev doc pdf_name images_dir (Suc n) ps
       (mc @ text_fragments n t @ image_fragments n refs) w1 = (Inr mc', w')"
    by (auto split: sum.splits prod.splits)
  from Cons.IH[OF this] show ?case by auto
qed

lemma convert_success:
  assumes "convert_pdf_to_markdown ev pdf output_dir images_dir w = (Inr (), w')"
  shows "\<exists>doc mc w2. fitz_open pdf = Inr doc
     \<and> page_loop ev doc (path_stem pdf) images_dir 0 (doc_pages doc) (header_fragments pdf)
          (py_print (''Converting: '' @ path_name pdf) w) = (Inr mc, w2)
     \<and> files w' (output_dir @ [path_stem pdf @ ''.md'']) = Some (Text (join ''\<newline>'' mc))"
  using assms
  by (auto simp: convert_pdf_to_markdown_def Let_def write_file_def
      split: sum.splits prod.splits option.splits)

lemma ex_convert:
  "fst (convert_pdf_to_markdown ex_env ex_pdf [''out''] [''out'', ''images''] w0) = Inr ()"
  by (simp add: convert_pdf_to_markdown_def Let_def ex_pdf_def ex_doc_def ex_page1_def ex_page2_def
      extract_images_eq ex_env_def write_file_def split: prod.splits)



subsection \<open>Heading lines of the fragments\<close>

lemma heading_lines_join:
  assumes "mc \<noteq> []"
  shows "heading_lines (join ''\<newline>'' mc) = concat (map heading_lines mc)"
proof -
  have "split_str CHR ''\<newline>'' (join [CHR ''\<newline>''] mc)
      = concat (map (split_str CHR ''\<newline>'') mc)"
    using split_join[OF assms] by simp
  then show ?thesis by (simp add: heading_lines_def[abs_def] filter_concat comp_def)
qed

lemma lines_closed:
  "CHR ''\<newline>'' \<notin> set a \<Longrightarrow> split_str CHR ''\<newline>'' (a @ ''\<newline>'') = [a, []]"
  using split_str_append[of "CHR ''\<newline>''" a "[]"] by (simp add: split_str_no_sep)

lemma lines_wrapped:
  "CHR ''\<newline>'' \<notin> set a \<Longrightarrow> split_str CHR ''\<newline>'' (''\<newline>'' @ a @ ''\<newline>'') = [[], a, []]"
  using lines_closed[of a] by simp

lemma str_nat_no_newline: "CHR ''\<newline>'' \<notin> set (str_nat n)"
proof
  assume "CHR ''\<newline>'' \<in> set (str_nat n)"
  then have "isdigit CHR ''\<newline>''" using str_nat_digits by blast
  then show False by (simp add: isdigit_def)
qed

lemma heading_fragment:
  "heading_lines (''\<newline>## Page '' @ str_nat k @ ''\<newline>'') = [''## Page '' @ str_nat k]"
proof -
  have "CHR ''\<newline>'' \<notin> set (''## Page '' @ str_nat k)" using str_nat_no_newline by simp
  from lines_wrapped[OF this] show ?thesis by (simp add: heading_lines_def)
qed

lemma images_heading_fragment:
  "heading_lines (''\<newline>### Images from Page '' @ str_nat k @ ''\<newline>'') = []"
proof -
  have "CHR ''\<newline>'' \<notin> set (''### Images from Page '' @ str_nat k)" using str_nat_no_newline by simp
  from lines_wrapped[OF this] show ?thesis by (simp add: heading_lines_def)
qed

lemma newline_fragment: "heading_lines ''\<newline>'' = []"
  by (simp add: heading_lines_def)

lemma text_block_fragment:
  assumes "strip t \<noteq> []"
      and "\<forall>l \<in> set (split_str CHR ''\<newline>'' t). \<not> prefix ''## Page'' (strip l)"
  shows "heading_lines (spec_clean_text t) = []"
  unfolding heading_lines_def clean_lines[OF assms(1)] using assms(2)
  by (auto simp: filter_empty_conv)

lemma text_fragments_headings:
  assumes "strip t \<noteq> []"
      and "\<forall>l \<in> set (split_str CHR ''\<newline>'' t). \<not> prefix ''## Page'' (strip l)"
  shows "concat (map heading_lines (text_fragments n t)) = [''## Page '' @ str_nat (n + 1)]"
proof -
  have "text_fragments n t =
      [''\<newline>## Page '' @ str_nat (n + 1) @ ''\<newline>'', spec_clean_text t, ''\<newline>'']"
    using assms(1) by (simp add: text_fragments_def spec_clean_text_def process_lines_filter)
  then show ?thesis
    using heading_fragment[of "n + 1"] text_block_fragment[OF assms] newline_fragment by simp
qed

lemma refs_block_fragment:
  assumes "\<forall>r \<in> set refs. CHR ''\<newline>'' \<notin> set r \<and> \<not> prefix ''## Page'' r"
  shows "heading_lines (join ''\<newline>\<newline>'' refs) = []"
  using assms
proof (induction refs)
  case Nil
  then show ?case by (simp add: heading_lines_def)
next
  case (Cons r rs)
  have r: "split_str CHR ''\<newline>'' r = [r]" "\<not> prefix ''## Page'' r"
    using Cons.prems by (simp_all add: split_str_no_sep)
  show ?case
  proof (cases "rs = []")
    case True
    then show ?thesis using r by (simp add: heading_lines_def)
  next
    case False
    have "join ''\<newline>\<newline>'' (r # rs) = r @ CHR ''\<newline>'' # ([] @ CHR ''\<newline>'' # join ''\<newline>\<newline>'' rs)"
      using False by (simp add: join_Cons)
    then have "split_str CHR ''\<newline>'' (join ''\<newline>\<newline>'' (r # rs))
        = [r] @ [[]] @ split_str CHR ''\<newline>'' (join ''\<newline>\<newline>'' rs)"
      using r(1) by (simp only: split_str_append split_str.simps(1))
    then show ?thesis using Cons r(2) by (simp add: heading_lines_def)
  qed
qed

lemma image_fragments_headings:
  assumes "\<forall>r \<in> set refs. CHR ''\<newline>'' \<notin> set r \<and> \<not> prefix ''## Page'' r"
  shows "concat (map heading_lines (image_fragments n refs)) = []"
  using images_heading_fragment[of "n + 1"] refs_block_fragment[OF assms] newline_fragment
  by (auto simp: image_fragments_def)

lemma upper_newline: "upper c = CHR ''\<newline>'' \<Longrightarrow> c = CHR ''\<newline>''"
proof (cases "islower c")
  case False
  then show "upper c = CHR ''\<newline>'' \<Longrightarrow> c = CHR ''\<newline>''" by (simp add: upper_def)
next
  case True
  assume "upper c = CHR ''\<newline>''"
  then have "of_char (char_of (of_char c - (32::nat)) :: char) = (of_char CHR ''\<newline>'' :: nat)"
    using True by (simp add: upper_def)
  then have m: "(of_char c - (32::nat)) mod 256 = 10" by simp
  have "of_char c - (32::nat) < 256" "65 \<le> of_char c - (32::nat)"
    using True unfolding islower_def by linarith+
  then show "c = CHR ''\<newline>''" using m by simp
qed

lemma lower_newline: "lower c = CHR ''\<newline>'' \<Longrightarrow> c = CHR ''\<newline>''"
proof (cases "isupper c")
  case False
  then show "lower c = CHR ''\<newline>'' \<Longrightarrow> c = CHR ''\<newline>''" by (simp add: lower_def)
next
  case True
  assume "lower c = CHR ''\<newline>''"
  then have "of_char (char_of (of_char c + (32::nat)) :: char) = (of_char CHR ''\<newline>'' :: nat)"
    using True by (simp add: lower_def)
  then have m: "(of_char c + (32::nat)) mod 256 = 10" by simp
  have "of_char c + (32::nat) < 256" "97 \<le> of_char c + (32::nat)"
    using True unfolding isupper_def by linarith+
  then show "c = CHR ''\<newline>''" using m by simp
qed

lemma title_from_no_newline:
  "CHR ''\<newline>'' \<notin> set s \<Longrightarrow> CHR ''\<newline>'' \<notin> set (title_from b s)"
  by (induction s arbitrary: b) (auto dest: upper_newline[OF sym] lower_newline[OF sym])

lemma header_headings:
  assumes "CHR ''\<newline>'' \<notin> set (path_stem pdf)" "CHR ''\<newline>'' \<notin> set (path_name pdf)"
  shows "concat (map heading_lines (header_fragments pdf)) = []"
proof -
  let ?T = "title (replace CHR ''-'' CHR '' '' (path_stem pdf))"
  have "CHR ''\<newline>'' \<notin> set (replace CHR ''-'' CHR '' '' (path_stem pdf))"
    using assms(1) by (auto simp: replace_def)
  then have "CHR ''\<newline>'' \<notin> set (''# '' @ ?T)"
    using title_from_no_newline by (simp add: title_def)
  from lines_closed[OF this]
  have 1: "heading_lines (''# '' @ ?T @ ''\<newline>'') = []" by (simp add: heading_lines_def)
  have "CHR ''\<newline>'' \<notin> set (''*Converted from: '' @ path_name pdf @ ''*'')"
    using assms(2) by simp
  from lines_closed[OF this]
  have 2: "heading_lines (''*Converted from: '' @ path_name pdf @ ''*\<newline>'') = []"
    by (simp add: heading_lines_def)
  have 3: "heading_lines ''---\<newline>'' = []" by (simp add: heading_lines_def)
  show ?thesis using 1 2 3 by (simp add: header_fragments_def)
qed

lemma refs_of_shape:
  assumes "r \<in> set (refs_of ev doc dir pdf_name n k imgs)"
  shows "\<exists>i x xr base. r = image_ref pdf_name (image_filename n i x)
           \<and> extract_image doc xr = Inr base \<and> bi_ext base = Some x"
proof -
  from assms have "\<exists>q \<in> set (enumerate k imgs).
      r \<in> set (case q of (i, info) \<Rightarrow> case attempt ev doc dir n i info of
                   Inl e \<Rightarrow> [] | Inr (fname, b) \<Rightarrow> [image_ref pdf_name fname])"
    unfolding refs_of_def set_concat set_map by blast
  then obtain q where q: "q \<in> set (enumerate k imgs)"
    "r \<in> set (case q of (i, info) \<Rightarrow> case attempt ev doc dir n i info of
                   Inl e \<Rightarrow> [] | Inr (fname, b) \<Rightarrow> [image_ref pdf_name fname])"
    by blast
  obtain i info where iq: "q = (i, info)" by (cases q)
  show ?thesis
  proof (cases "attempt ev doc dir n i info")
    case (Inl e)
    then show ?thesis using q(2) iq by simp
  next
    case (Inr fb)
    obtain fname b where fb: "fb = (fname, b)" by (cases fb)
    then have "r = image_ref pdf_name fname" using q(2) iq Inr by simp
    then show ?thesis using attempt_Inr[OF Inr[unfolded fb]] by auto
  qed
qed

lemma extract_images_refs_shape:
  assumes "extract_images ev doc pg pdf_name n images_dir w = (Inr refs, w')" "r \<in> set refs"
  shows "\<exists>i x xr base. r = image_ref pdf_name (image_filename n i x)
           \<and> extract_image doc xr = Inr base \<and> bi_ext base = Some x"
proof -
  have "refs = [] \<or> (\<exists>imgs. refs = refs_of ev doc (images_dir @ [pdf_name]) pdf_name n 1 imgs)"
    using assms(1) by (auto simp: extract_images_eq split: sum.splits if_splits option.splits)
  then show ?thesis using assms(2) refs_of_shape by fastforce
qed

lemma image_ref_clean:
  assumes "CHR ''\<newline>'' \<notin> set pdf_name" "CHR ''\<newline>'' \<notin> set x"
  shows "CHR ''\<newline>'' \<notin> set (image_ref pdf_name (image_filename n i x))
     \<and> \<not> prefix ''## Page'' (image_ref pdf_name (image_filename n i x))"
  using assms str_nat_no_newline by (simp add: image_ref_def image_filename_def)

lemma upt_shift: "[n + 1 ..< n + 1 + Suc m] = (n + 1) # [Suc n + 1 ..< Suc n + 1 + m]"
  by (simp add: upt_conv_Cons)

lemma page_loop_headings:
  assumes "page_loop ev doc pdf_name images_dir n ps mc w = (Inr mc', w')"
      and "\<forall>p \<in> set ps. \<exists>pg t. p = Inr pg \<and> get_text pg = Inr t \<and> strip t \<noteq> []
             \<and> (\<forall>l \<in> set (split_str CHR ''\<newline>'' t). \<not> prefix ''## Page'' (strip l))"
      and "CHR ''\<newline>'' \<notin> set pdf_name"
      and "\<forall>x base e. extract_image doc x = Inr base \<and> bi_ext base = Some e \<longrightarrow> CHR ''\<newline>'' \<notin> set e"
  shows "concat (map heading_lines mc') =
           concat (map heading_lines mc) @ map (\<lambda>k. ''## Page '' @ str_nat k) [n + 1 ..< n + 1 + length ps]"
  using assms(1,2)
proof (induction ps arbitrary: n mc w)
  case Nil
  then show ?case by simp
next
  case (Cons p ps)
  from Cons.prems(2) obtain pg t where p: "p = Inr pg" "get_text pg = Inr t" "strip t \<noteq> []"
      "\<forall>l \<in> set (split_str CHR ''\<newline>'' t). \<not> prefix ''## Page'' (strip l)"
    by auto
  obtain r w1 where x: "extract_images ev doc pg pdf_name n images_dir w = (r, w1)"
    by (cases "extract_images ev doc pg pdf_name n images_dir w")
  obtain refs where r: "r = Inr refs" using Cons.prems(1) p x by (cases r) auto
  have step: "page_loop ev doc pdf_name images_dir (Suc n) ps
      (mc @ text_fragments n t @ image_fragments n refs) w1 = (Inr mc', w')"
    using Cons.prems(1) p x r by simp
  have "\<forall>r \<in> set refs. CHR ''\<newline>'' \<notin> set r \<and> \<not> prefix ''## Page'' r"
  proof
    fix r' assume "r' \<in> set refs"
    from extract_images_refs_shape[OF x[unfolded r] this]
    obtain i x' xr base where "r' = image_ref pdf_name (image_filename n i x')"
        "extract_image doc xr = Inr base" "bi_ext base = Some x'"
      by blast
    then show "CHR ''\<newline>'' \<notin> set r' \<and> \<not> prefix ''## Page'' r'"
      using image_ref_clean[OF assms(3), of x' n i] assms(4) by blast
  qed
  from image_fragments_headings[OF this]
  have img: "concat (map heading_lines (image_fragments n refs)) = []" .
  have tx: "concat (map heading_lines (text_fragments n t)) = [''## Page '' @ str_nat (n + 1)]"
    using text_fragments_headings[OF p(3,4)] .
  have ih: "concat (map heading_lines mc') =
      concat (map heading_lines (mc @ text_fragments n t @ image_fragments n refs))
        @ map (\<lambda>k. ''## Page '' @ str_nat k) [Suc n + 1 ..< Suc n + 1 + length ps]"
    using Cons.IH[OF step] Cons.prems(2) by simp
  have "concat (map heading_lines mc') =
      concat (map heading_lines mc) @ (''## Page '' @ str_nat (n + 1))
        # map (\<lambda>k. ''## Page '' @ str_nat k) [Suc n + 1 ..< Suc n + 1 + length ps]"
    unfolding ih map_append concat_append img tx by simp
  then show ?case unfolding length_Cons upt_shift list.map .
qed

lemma ex_convert_two:
  "fst (convert_pdf_to_markdown ex_env ex_pdf_two [''out''] [''out'', ''images''] w0) = Inr ()"
  by (simp add: convert_pdf_to_markdown_def Let_def ex_pdf_two_def ex_doc_two_def
      extract_images_eq ex_env_def write_file_def split: prod.splits)

lemma ex_title_notes: "title (replace CHR ''-'' CHR '' '' ''notes'') = ''Notes''"
  by code_simp

subsection \<open>C2: one heading for every page with text\<close>

text \<open>
  Claim C2 as stated fails: the text of a page goes into the file as it is, so a line
  of the text that begins with \<^verbatim>\<open>## Page\<close> is one more such line of the file. The
  document below has one page, whose text (not blank) is the single line
  \<^verbatim>\<open>## Page 7\<close>; its Markdown file has two \<^verbatim>\<open>## Page\<close> lines, not one.
\<close>

theorem heading_in_page_text:
  "doc_pages ex_doc_heading = [Inr \<lparr>get_text = Inr ''## Page 7'', get_images = Inr []\<rparr>]
   \<and> strip ''## Page 7'' \<noteq> []
   \<and> files (snd (convert_pdf_to_markdown ex_env ex_pdf_heading [''out''] [''out'', ''images''] w0))
        [''out'', ''notes.md'']
      = Some (Text (''# Notes\<newline>\<newline>*Converted from: notes.pdf*\<newline>\<newline>---\<newline>''
           @ ''\<newline>\<newline>## Page 1\<newline>\<newline>## Page 7\<newline>\<newline>''))
   \<and> heading_lines (''# Notes\<newline>\<newline>*Converted from: notes.pdf*\<newline>\<newline>---\<newline>''
           @ ''\<newline>\<newline>## Page 1\<newline>\<newline>## Page 7\<newline>\<newline>'')
      = [''## Page 1'', ''## Page 7'']"
proof -
  have s: "strip ''## Page 7'' = ''## Page 7''" by (simp add: strip_def isspace_def)
  have f: "files (snd (convert_pdf_to_markdown ex_env ex_pdf_heading [''out''] [''out'', ''images''] w0))
        [''out'', ''notes.md'']
      = Some (Text (''# Notes\<newline>\<newline>*Converted from: notes.pdf*\<newline>\<newline>---\<newline>''
           @ ''\<newline>\<newline>## Page 1\<newline>\<newline>## Page 7\<newline>\<newline>''))"
    by (simp add: convert_pdf_to_markdown_def Let_def ex_pdf_heading_def ex_doc_heading_def
        extract_images_eq ex_env_def write_file_def header_fragments_def ex_title_notes
        text_fragments_def image_fragments_def s str_nat.simps digit_def)
  have h: "heading_lines (''# Notes\<newline>\<newline>*Converted from: notes.pdf*\<newline>\<newline>---\<newline>''
           @ ''\<newline>\<newline>## Page 1\<newline>\<newline>## Page 7\<newline>\<newline>'')
      = [''## Page 1'', ''## Page 7'']"
    by (simp add: heading_lines_def)
  show ?thesis using s f h by (simp add: ex_doc_heading_def)
qed

text \<open>
  Claim C2, amended. For a document of \<open>N\<close> pages that is converted without an
  exception, every page with text that is not blank and of which no trimmed line
  begins with \<^verbatim>\<open>## Page\<close> (and with no line break in the file's name, its stem or an
  image extension), the lines of the Markdown file that begin with \<^verbatim>\<open>## Page\<close> are
  exactly \<^verbatim>\<open>## Page 1\<close>, ..., \<^verbatim>\<open>## Page N\<close>, in this order, whichever pages have
  images.
\<close>

theorem page_headings_numbered:
  assumes "convert_pdf_to_markdown ev pdf output_dir images_dir w = (Inr (), w')"
      and "fitz_open pdf = Inr doc"
      and "\<forall>p \<in> set (doc_pages doc). \<exists>pg t. p = Inr pg \<and> get_text pg = Inr t \<and> strip t \<noteq> []
             \<and> (\<forall>l \<in> set (split_str CHR ''\<newline>'' t). \<not> prefix ''## Page'' (strip l))"
      and "CHR ''\<newline>'' \<notin> set (path_stem pdf)" and "CHR ''\<newline>'' \<notin> set (path_name pdf)"
      and "\<forall>x base e. extract_image doc x = Inr base \<and> bi_ext base = Some e \<longrightarrow> CHR ''\<newline>'' \<notin> set e"
  shows "\<exists>content. files w' (output_dir @ [path_stem pdf @ ''.md'']) = Some (Text content)
           \<and> heading_lines content
               = map (\<lambda>k. ''## Page '' @ str_nat k) [1 ..< length (doc_pages doc) + 1]"
proof -
  obtain mc w2 where c: "page_loop ev doc (path_stem pdf) images_dir 0 (doc_pages doc)
      (header_fragments pdf) (py_print (''Converting: '' @ path_name pdf) w) = (Inr mc, w2)"
    "files w' (output_dir @ [path_stem pdf @ ''.md'']) = Some (Text (join ''\<newline>'' mc))"
    using convert_success[OF assms(1)] assms(2) by auto
  obtain fr where "mc = header_fragments pdf @ fr" using page_loop_extends[OF c(1)] by blast
  then have "mc \<noteq> []" by (simp add: header_fragments_def)
  then have "heading_lines (join ''\<newline>'' mc) = concat (map heading_lines mc)"
    by (rule heading_lines_join)
  also have "\<dots> = concat (map heading_lines (header_fragments pdf))
      @ map (\<lambda>k. ''## Page '' @ str_nat k) [0 + 1 ..< 0 + 1 + length (doc_pages doc)]"
    by (rule page_loop_headings[OF c(1) assms(3,4,6)])
  also have "\<dots> = map (\<lambda>k. ''## Page '' @ str_nat k) [1 ..< length (doc_pages doc) + 1]"
    using header_headings[OF assms(4,5)] by simp
  finally show ?thesis using c(2) by blast
qed

theorem page_headings_numbered_witness:
  "\<exists>content. files (snd (convert_pdf_to_markdown ex_env ex_pdf_two [''out''] [''out'', ''images''] w0))
        [''out'', ''two.md''] = Some (Text content)
     \<and> heading_lines content = [''## Page 1'', ''## Page 2'']"
proof -
  have c: "convert_pdf_to_markdown ex_env ex_pdf_two [''out''] [''out'', ''images''] w0
      = (Inr (), snd (convert_pdf_to_markdown ex_env ex_pdf_two [''out''] [''out'', ''images''] w0))"
    using ex_convert_two by (simp add: prod_eq_iff)
  have d: "fitz_open ex_pdf_two = Inr ex_doc_two" by (simp add: ex_pdf_two_def)
  have p: "\<forall>p \<in> set (doc_pages ex_doc_two). \<exists>pg t. p = Inr pg \<and> get_text pg = Inr t \<and> strip t \<noteq> []
             \<and> (\<forall>l \<in> set (split_str CHR ''\<newline>'' t). \<not> prefix ''## Page'' (strip l))"
    by (simp add: ex_doc_two_def strip_def isspace_def)
  have n: "CHR ''\<newline>'' \<notin> set (path_stem ex_pdf_two)" "CHR ''\<newline>'' \<notin> set (path_name ex_pdf_two)"
    by (simp_all add: ex_pdf_two_def)
  have e: "\<forall>x base e. extract_image ex_doc_two x = Inr base \<and> bi_ext base = Some e
      \<longrightarrow> CHR ''\<newline>'' \<notin> set e"
    by (auto simp: ex_doc_two_def split: if_splits)
  from page_headings_numbered[OF c d p n e]
  obtain content where
    "files (snd (convert_pdf_to_markdown ex_env ex_pdf_two [''out''] [''out'', ''images''] w0))
        ([''out''] @ [path_stem ex_pdf_two @ ''.md'']) = Some (Text content)"
    "heading_lines content = map (\<lambda>k. ''## Page '' @ str_nat k) [1 ..< length (doc_pages ex_doc_two) + 1]"
    by blast
  moreover have "map (\<lambda>k. ''## Page '' @ str_nat k) [1 ..< length (doc_pages ex_doc_two) + 1]
      = [''## Page 1'', ''## Page 2'']"
    by (simp add: ex_doc_two_def upt_conv_Cons str_nat.simps digit_def)
  ultimately show ?thesis by (simp add: ex_pdf_two_def)
qed

end
